theory Spec2Isabelle
  imports Main "HOL-Library.AList"
begin

section \<open>PseudoBank: the session mapper and the column replacement loop\<close>

text \<open>
  The development embeds \<^verbatim>\<open>src/pseudonymize.py\<close>: the class \<^verbatim>\<open>SessionMapper\<close>
  (lines 25-76) and step 6 of \<^verbatim>\<open>interactive_pseudonymize\<close> (lines 329-341), the loop
  that replaces the cells of the selected columns.
\<close>

subsection \<open>The random generator\<close>

text \<open>
  \<^verbatim>\<open>random.choice(seq)\<close> returns \<^verbatim>\<open>seq[k]\<close> for an index \<^verbatim>\<open>k\<close> below \<^verbatim>\<open>len(seq)\<close>
  drawn from the module-level generator. The generator is the sequence of its future
  draws; a draw is reduced modulo the length, so every sequence of naturals is a legal
  generator and every element of \<^verbatim>\<open>seq\<close> can be chosen. A call consumes one draw.
\<close>

type_synonym rng = "nat \<Rightarrow> nat"

definition rng_next :: "rng \<Rightarrow> rng" where
  "rng_next g = (\<lambda>i. g (Suc i))"

definition rng_zero :: rng where
  "rng_zero = (\<lambda>i. 0)"

subsection \<open>Strings of integers\<close>

text \<open>\<^verbatim>\<open>str(num)\<close> for a Python int: decimal digits, a minus sign for negatives.\<close>

definition digit_char :: "nat \<Rightarrow> char" where
  "digit_char d = ''0123456789'' ! d"

function str_nat :: "nat \<Rightarrow> string" where
  "str_nat n = (if n < 10 then [digit_char n] else str_nat (n div 10) @ [digit_char (n mod 10)])"
  by pat_completeness auto
termination
  by (relation "measure (\<lambda>n. n)") auto

declare str_nat.simps [simp del]

definition str_int :: "int \<Rightarrow> string" where
  "str_int i = (if i < 0 then CHR ''-'' # str_nat (nat (- i)) else str_nat (nat i))"

text \<open>
  \<^verbatim>\<open>s.zfill(width)\<close>: a string at least \<^verbatim>\<open>width\<close> long is returned as it is; otherwise
  zeros are put on the left, after a leading sign if there is one.
\<close>

definition zfill :: "nat \<Rightarrow> string \<Rightarrow> string" where
  "zfill width s =
     (if width \<le> length s then s
      else (case s of
              [] \<Rightarrow> replicate width CHR ''0''
            | c # cs \<Rightarrow>
                if c = CHR ''+'' \<or> c = CHR ''-''
                then c # replicate (width - length s) CHR ''0'' @ cs
                else replicate (width - length s) CHR ''0'' @ s))"

text \<open>The value of a digit string, used to read a rendered number back.\<close>

definition digit_of :: "char \<Rightarrow> nat" where
  "digit_of c = of_char c - 48"

definition digits_val :: "string \<Rightarrow> nat" where
  "digits_val s = foldl (\<lambda>a c. 10 * a + digit_of c) 0 s"

subsection \<open>SessionMapper\<close>

text \<open>
  The two dictionaries of the class: \<^verbatim>\<open>_mappings\<close> is \<^verbatim>\<open>{prefix: {real_value: fake_value}}\<close>,
  \<^verbatim>\<open>_used_numbers\<close> is \<^verbatim>\<open>{prefix: set of int}\<close>.
\<close>

record SessionMapper =
  mappings :: "string \<rightharpoonup> (string \<rightharpoonup> string)"
  used_numbers :: "string \<rightharpoonup> int set"

definition SessionMapper_init :: SessionMapper where
  "SessionMapper_init = \<lparr>mappings = Map.empty, used_numbers = Map.empty\<rparr>"

text \<open>
  \<^verbatim>\<open>_get_random_number\<close> (lines 40-56). The set \<^verbatim>\<open>used\<close> is the object stored in the
  dictionary, so \<^verbatim>\<open>used.add(chosen)\<close> updates the dictionary entry. On the fallback path
  nothing is added and no draw is consumed.
\<close>

definition get_random_number ::
    "string \<Rightarrow> SessionMapper \<Rightarrow> rng \<Rightarrow> int \<times> SessionMapper \<times> rng" where
  "get_random_number prefix self g =
     (let self1 = (if prefix \<notin> dom (used_numbers self)
                   then self\<lparr>used_numbers := (used_numbers self)(prefix \<mapsto> {})\<rparr>
                   else self);
          used = (case used_numbers self1 prefix of None \<Rightarrow> {} | Some u \<Rightarrow> u);
          available = filter (\<lambda>n. n \<notin> used) [1..999]
      in if available = [] then (int (card used) + 1000, self1, g)
         else (let chosen = available ! (g 0 mod length available)
               in (chosen,
                   self1\<lparr>used_numbers := (used_numbers self1)(prefix \<mapsto> insert chosen used)\<rparr>,
                   rng_next g)))"

text \<open>\<^verbatim>\<open>f"{prefix}_{str(num).zfill(3)}"\<close> (line 69).\<close>

definition fake_name :: "string \<Rightarrow> int \<Rightarrow> string" where
  "fake_name prefix num = prefix @ ''_'' @ zfill 3 (str_int num)"

text \<open>\<^verbatim>\<open>get_fake_value\<close> (lines 58-72).\<close>

definition get_fake_value ::
    "string \<Rightarrow> string \<Rightarrow> SessionMapper \<Rightarrow> rng \<Rightarrow> string \<times> SessionMapper \<times> rng" where
  "get_fake_value prefix real_value self g =
     (let self1 = (if prefix \<notin> dom (mappings self)
                   then self\<lparr>mappings := (mappings self)(prefix \<mapsto> Map.empty)\<rparr>
                   else self);
          m = (case mappings self1 prefix of None \<Rightarrow> Map.empty | Some m \<Rightarrow> m)
      in case m real_value of
           Some fake \<Rightarrow> (fake, self1, g)
         | None \<Rightarrow>
             (case get_random_number prefix self1 g of
                (num, self2, g') \<Rightarrow>
                  (let fake = fake_name prefix num
                   in (fake,
                       self2\<lparr>mappings := (mappings self2)(prefix \<mapsto> m(real_value \<mapsto> fake))\<rparr>,
                       g'))))"

text \<open>The entries of the two dictionaries for one prefix; a missing prefix has none.\<close>

definition used_of :: "SessionMapper \<Rightarrow> string \<Rightarrow> int set" where
  "used_of self prefix = (case used_numbers self prefix of None \<Rightarrow> {} | Some u \<Rightarrow> u)"

definition mapping_of :: "SessionMapper \<Rightarrow> string \<Rightarrow> (string \<rightharpoonup> string)" where
  "mapping_of self prefix = (case mappings self prefix of None \<Rightarrow> Map.empty | Some m \<Rightarrow> m)"

subsection \<open>Sessions\<close>

text \<open>
  A session is a sequence of calls on one mapper, starting from \<^verbatim>\<open>SessionMapper()\<close>.
  \<open>allocs prefix k\<close> is \<open>k\<close> successive calls of \<^verbatim>\<open>_get_random_number(prefix)\<close> and
  collects the integers they return.
\<close>

fun allocs :: "string \<Rightarrow> nat \<Rightarrow> SessionMapper \<Rightarrow> rng \<Rightarrow> int list \<times> SessionMapper \<times> rng" where
  "allocs prefix 0 self g = ([], self, g)"
| "allocs prefix (Suc k) self g =
     (case get_random_number prefix self g of
        (n, self1, g1) \<Rightarrow>
          (case allocs prefix k self1 g1 of
             (ns, self2, g2) \<Rightarrow> (n # ns, self2, g2)))"

datatype call = Allocate string | GetFake string string

fun call_step :: "call \<Rightarrow> SessionMapper \<Rightarrow> rng \<Rightarrow> SessionMapper \<times> rng" where
  "call_step (Allocate prefix) self g = snd (get_random_number prefix self g)"
| "call_step (GetFake prefix real_value) self g = snd (get_fake_value prefix real_value self g)"

fun run :: "call list \<Rightarrow> SessionMapper \<Rightarrow> rng \<Rightarrow> SessionMapper \<times> rng" where
  "run [] self g = (self, g)"
| "run (c # cs) self g = (case call_step c self g of (self1, g1) \<Rightarrow> run cs self1 g1)"

subsection \<open>The column replacement loop\<close>

text \<open>
  A cell of the DataFrame is missing (\<^verbatim>\<open>NaN\<close>, \<^verbatim>\<open>None\<close>), a string or an integer; floats
  other than \<^verbatim>\<open>NaN\<close> are left out of the model. \<^verbatim>\<open>pd.isna\<close> holds of the missing cell
  only, \<^verbatim>\<open>str\<close> is Python's.
\<close>

datatype cell = NA | Text string | Number int

fun isna :: "cell \<Rightarrow> bool" where
  "isna NA = True"
| "isna (Text s) = False"
| "isna (Number i) = False"

fun str :: "cell \<Rightarrow> string" where
  "str NA = ''nan''"
| "str (Text s) = s"
| "str (Number i) = str_int i"

text \<open>
  The frame is its columns in order, each a name and its cells in row order; the names
  are distinct, as \<^verbatim>\<open>read_csv\<close> and \<^verbatim>\<open>read_excel\<close> deliver them.
  \<^verbatim>\<open>df[col]\<close> raises \<^verbatim>\<open>KeyError\<close> for a name that is not a column.
\<close>

type_synonym dataframe = "(string \<times> cell list) list"

datatype error = KeyError string

text \<open>\<^verbatim>\<open>replace_value\<close> (lines 334-337), with the prefix and the mapper it closes over.\<close>

definition replace_value ::
    "string \<Rightarrow> cell \<Rightarrow> SessionMapper \<Rightarrow> rng \<Rightarrow> cell \<times> SessionMapper \<times> rng" where
  "replace_value prefix v mapper g =
     (if isna v then (v, mapper, g)
      else (case get_fake_value prefix (str v) mapper g of
              (fake, mapper1, g1) \<Rightarrow> (Text fake, mapper1, g1)))"

text \<open>\<^verbatim>\<open>df[col].apply(replace_value)\<close>: the function is called on the cells in row order.\<close>

fun series_apply ::
    "string \<Rightarrow> cell list \<Rightarrow> SessionMapper \<Rightarrow> rng \<Rightarrow> cell list \<times> SessionMapper \<times> rng" where
  "series_apply prefix [] mapper g = ([], mapper, g)"
| "series_apply prefix (v # vs) mapper g =
     (case replace_value prefix v mapper g of
        (v', mapper1, g1) \<Rightarrow>
          (case series_apply prefix vs mapper1 g1 of
             (vs', mapper2, g2) \<Rightarrow> (v' # vs', mapper2, g2)))"

text \<open>
  The loop of lines 331-341 over \<^verbatim>\<open>column_prefixes.items()\<close>, the items of the dict in
  insertion order. The frame is changed in place, so when \<^verbatim>\<open>df[col]\<close> raises, the frame
  is as the earlier iterations left it.
\<close>

fun pseudonymize_columns ::
    "(string \<times> string) list \<Rightarrow> dataframe \<Rightarrow> SessionMapper \<Rightarrow> rng
      \<Rightarrow> (error + unit) \<times> dataframe \<times> SessionMapper \<times> rng" where
  "pseudonymize_columns [] df mapper g = (Inr (), df, mapper, g)"
| "pseudonymize_columns ((col, prefix) # rest) df mapper g =
     (case map_of df col of
        None \<Rightarrow> (Inl (KeyError col), df, mapper, g)
      | Some cells \<Rightarrow>
          (case series_apply prefix cells mapper g of
             (cells', mapper1, g1) \<Rightarrow>
               pseudonymize_columns rest (AList.update col cells' df) mapper1 g1))"

text \<open>
  Step 6 of \<^verbatim>\<open>interactive_pseudonymize\<close> (lines 329-341): a fresh mapper, then the loop.
  The frame and \<^verbatim>\<open>column_prefixes\<close> are what steps 1 to 5 produced.
\<close>

definition interactive_pseudonymize ::
    "dataframe \<Rightarrow> (string \<times> string) list \<Rightarrow> rng
      \<Rightarrow> (error + unit) \<times> dataframe \<times> SessionMapper \<times> rng" where
  "interactive_pseudonymize df column_prefixes g =
     pseudonymize_columns column_prefixes df SessionMapper_init g"

subsection \<open>The invariant of the mapper\<close>

text \<open>
  Used numbers lie in 1..999; every stored pseudonym is the rendering of a used number,
  or of 1999 once the range is used up; two values share a pseudonym only once the range
  is used up.
\<close>

definition mapper_inv :: "SessionMapper \<Rightarrow> bool" where
  "mapper_inv s \<longleftrightarrow>
     (\<forall>p. used_of s p \<subseteq> {1..999}) \<and>
     (\<forall>p v f. mapping_of s p v = Some f \<longrightarrow>
        (\<exists>n. f = fake_name p n \<and> (n \<in> used_of s p \<or> n = 1999 \<and> used_of s p = {1..999}))) \<and>
     (\<forall>p v1 v2 f. mapping_of s p v1 = Some f \<longrightarrow> mapping_of s p v2 = Some f \<longrightarrow> v1 \<noteq> v2 \<longrightarrow>
        used_of s p = {1..999})"

section \<open>Properties\<close>

lemma digit_of_digit_char: "d < 10 \<Longrightarrow> digit_of (digit_char d) = d"
proof -
  assume "d < 10"
  then have "d \<in> {0,1,2,3,4,5,6,7,8,9}" by auto
  then show ?thesis
    by (auto simp: digit_of_def digit_char_def)
qed

lemma digits_val_snoc: "digits_val (s @ [c]) = 10 * digits_val s + digit_of c"
  by (simp add: digits_val_def)

lemma digits_val_str_nat: "digits_val (str_nat n) = n"
proof (induction n rule: str_nat.induct)
  case (1 n)
  show ?case
  proof (cases "n < 10")
    case True
    then show ?thesis
      by (simp add: str_nat.simps[of n] digits_val_def digit_of_digit_char)
  next
    case False
    with 1 show ?thesis
      by (simp add: str_nat.simps[of n] digits_val_snoc digit_of_digit_char)
  qed
qed

lemma digits_val_zeros: "digits_val (replicate k CHR ''0'' @ s) = digits_val s"
proof -
  have "foldl (\<lambda>a c. 10 * a + digit_of c) 0 (replicate k CHR ''0'') = 0"
    by (induction k) (simp_all add: digit_of_def)
  then show ?thesis by (simp add: digits_val_def)
qed

lemma digit_char_not_sign: "d < 10 \<Longrightarrow> digit_char d \<noteq> CHR ''+'' \<and> digit_char d \<noteq> CHR ''-''"
proof -
  assume "d < 10"
  then have "d \<in> {0,1,2,3,4,5,6,7,8,9}" by auto
  then show ?thesis
    by (auto simp: digit_char_def)
qed

lemma str_nat_hd: "\<exists>d cs. d < 10 \<and> str_nat n = digit_char d # cs"
proof (induction n rule: str_nat.induct)
  case (1 n)
  show ?case
  proof (cases "n < 10")
    case True
    then show ?thesis by (auto simp: str_nat.simps[of n])
  next
    case False
    with 1 obtain d cs where "d < 10" "str_nat (n div 10) = digit_char d # cs" by blast
    with False show ?thesis by (auto simp: str_nat.simps[of n])
  qed
qed

lemma zfill_str_nat: "zfill w (str_nat n) = replicate (w - length (str_nat n)) CHR ''0'' @ str_nat n"
proof -
  obtain d cs where d: "d < 10" "str_nat n = digit_char d # cs" using str_nat_hd by blast
  show ?thesis
    using digit_char_not_sign[OF d(1)] by (simp add: zfill_def d(2))
qed

lemma digits_val_zfill: "digits_val (zfill w (str_nat n)) = n"
  by (simp add: zfill_str_nat digits_val_zeros digits_val_str_nat)

lemma str_int_nonneg: "0 \<le> i \<Longrightarrow> str_int i = str_nat (nat i)"
  by (simp add: str_int_def)

lemma fake_name_inj: "0 \<le> a \<Longrightarrow> 0 \<le> b \<Longrightarrow> fake_name p a = fake_name p b \<Longrightarrow> a = b"
proof -
  assume a: "0 \<le> a" and b: "0 \<le> b" and e: "fake_name p a = fake_name p b"
  from e have "zfill 3 (str_nat (nat a)) = zfill 3 (str_nat (nat b))"
    by (simp add: fake_name_def str_int_nonneg a b)
  then have "digits_val (zfill 3 (str_nat (nat a))) = digits_val (zfill 3 (str_nat (nat b)))" by simp
  then have "nat a = nat b" by (simp add: digits_val_zfill)
  with a b show ?thesis by simp
qed

lemma str_nat_length_ge: "1000 \<le> n \<Longrightarrow> 4 \<le> length (str_nat n)"
proof -
  assume n: "1000 \<le> n"
  have l: "\<And>m. 1 \<le> length (str_nat m)"
    using str_nat_hd by (metis One_nat_def Suc_le_eq length_greater_0_conv list.distinct(1))
  have a: "\<not> n < 10" "\<not> n div 10 < 10" "\<not> n div 10 div 10 < 10" using n by linarith+
  have "str_nat n = str_nat (n div 10 div 10 div 10) @ [digit_char (n div 10 div 10 mod 10)] @ [digit_char (n div 10 mod 10)] @ [digit_char (n mod 10)]"
    using a by (simp add: str_nat.simps[of n] str_nat.simps[of "n div 10"] str_nat.simps[of "n div 10 div 10"])
  then show ?thesis using l[of "n div 10 div 10 div 10"] by simp
qed

lemma str_nat_digit: "n < 10 \<Longrightarrow> str_nat n = [digit_char n]" by (simp add: str_nat.simps[of n])
lemma str_nat_1: "str_nat 1 = ''1''" by (simp add: str_nat_digit digit_char_def)

lemma used_of_upd [simp]:
  "used_of (s\<lparr>used_numbers := (used_numbers s)(p \<mapsto> U)\<rparr>) q = (if q = p then U else used_of s q)"
  by (simp add: used_of_def)

lemma used_of_mappings_upd [simp]: "used_of (s\<lparr>mappings := mm\<rparr>) q = used_of s q"
  by (simp add: used_of_def)

lemma mapping_of_upd [simp]:
  "mapping_of (s\<lparr>mappings := (mappings s)(p \<mapsto> m)\<rparr>) q = (if q = p then m else mapping_of s q)"
  by (simp add: mapping_of_def)

lemma mapping_of_used_upd [simp]: "mapping_of (s\<lparr>used_numbers := uu\<rparr>) q = mapping_of s q"
  by (simp add: mapping_of_def)

lemma used_of_init [simp]: "used_of SessionMapper_init p = {}"
  by (simp add: used_of_def SessionMapper_init_def)

lemma mapping_of_init [simp]: "mapping_of SessionMapper_init p = Map.empty"
  by (simp add: mapping_of_def SessionMapper_init_def)

lemma filter_upto_empty: "filter (\<lambda>n. n \<notin> U) [1..999] = [] \<longleftrightarrow> {1..999} \<subseteq> U"
  by (auto simp: filter_empty_conv)

lemma grn_fallback:
  assumes "{1..999} \<subseteq> used_of s p"
  shows "get_random_number p s g = (int (card (used_of s p)) + 1000, s, g)"
proof -
  from assms have "used_of s p \<noteq> {}" by auto
  then obtain u where u: "used_numbers s p = Some u" by (auto simp: used_of_def split: option.splits)
  then have uo: "used_of s p = u" by (simp add: used_of_def)
  have "filter (\<lambda>n. n \<notin> u) [1..999] = []" using assms uo by (simp add: filter_upto_empty)
  then show ?thesis using u uo
    by (simp add: get_random_number_def Let_def dom_def)
qed

lemma grn_primary:
  assumes "\<not> {1..999} \<subseteq> used_of s p"
  shows "\<exists>n. n \<in> {1..999} \<and> n \<notin> used_of s p \<and>
     get_random_number p s g =
       (n, s\<lparr>used_numbers := (used_numbers s)(p \<mapsto> insert n (used_of s p))\<rparr>, rng_next g)"
proof -
  let ?av = "filter (\<lambda>n. n \<notin> used_of s p) [1..999]"
  have ne: "?av \<noteq> []" using assms by (simp add: filter_upto_empty)
  let ?n = "?av ! (g 0 mod length ?av)"
  have "g 0 mod length ?av < length ?av" using ne by simp
  then have "?n \<in> set ?av" by (rule nth_mem)
  then have mem: "?n \<in> {1..999} \<and> ?n \<notin> used_of s p" by auto
  have "get_random_number p s g =
       (?n, s\<lparr>used_numbers := (used_numbers s)(p \<mapsto> insert ?n (used_of s p))\<rparr>, rng_next g)"
  proof (cases "used_numbers s p")
    case None
    then have "used_of s p = {}" by (simp add: used_of_def)
    with None ne show ?thesis
      by (simp add: get_random_number_def Let_def dom_def)
  next
    case (Some u)
    then have "used_of s p = u" by (simp add: used_of_def)
    with Some ne show ?thesis
      by (simp add: get_random_number_def Let_def dom_def)
  qed
  with mem show ?thesis by blast
qed

lemma grn_mappings_upd:
  "get_random_number p (s\<lparr>mappings := mm\<rparr>) g =
     (case get_random_number p s g of (n, s', g') \<Rightarrow> (n, s'\<lparr>mappings := mm\<rparr>, g'))"
  by (simp add: get_random_number_def Let_def)

lemma grn_mappings: "mappings (fst (snd (get_random_number p s g))) = mappings s"
  by (simp add: get_random_number_def Let_def)

lemma gfv_hit:
  assumes "mapping_of s p v = Some f"
  shows "get_fake_value p v s g = (f, s, g)"
proof -
  from assms obtain m where m: "mappings s p = Some m" "m v = Some f"
    by (auto simp: mapping_of_def split: option.splits)
  then show ?thesis by (simp add: get_fake_value_def Let_def dom_def)
qed

lemma gfv_miss:
  assumes "mapping_of s p v = None" and "get_random_number p s g = (n, s', g')"
  shows "get_fake_value p v s g =
     (fake_name p n,
      s'\<lparr>mappings := (mappings s)(p \<mapsto> (mapping_of s p)(v \<mapsto> fake_name p n))\<rparr>, g')"
proof (cases "mappings s p")
  case None
  with assms show ?thesis
    by (simp add: get_fake_value_def Let_def dom_def grn_mappings_upd mapping_of_def)
next
  case (Some m)
  have "mappings s' = mappings s" using grn_mappings[of p s g] assms(2) by simp
  with Some assms show ?thesis
    by (simp add: get_fake_value_def Let_def dom_def mapping_of_def)
qed

lemma mapper_inv_init: "mapper_inv SessionMapper_init"
  by (simp add: mapper_inv_def)

lemma card_full: "card {1..999::int} = 999" by simp

lemma grn_result:
  assumes sub: "used_of s p \<subseteq> {1..999}" and r: "get_random_number p s g = (n, s', g')"
  shows "mappings s' = mappings s"
    and "q \<noteq> p \<Longrightarrow> used_of s' q = used_of s q"
    and "(n \<in> {1..999} \<and> n \<notin> used_of s p \<and> used_of s' p = insert n (used_of s p) \<and> g' = rng_next g) \<or>
         (n = 1999 \<and> used_of s p = {1..999} \<and> s' = s \<and> g' = g)"
proof -
  show "mappings s' = mappings s" using grn_mappings[of p s g] r by simp
  have "(q \<noteq> p \<longrightarrow> used_of s' q = used_of s q) \<and>
      ((n \<in> {1..999} \<and> n \<notin> used_of s p \<and> used_of s' p = insert n (used_of s p) \<and> g' = rng_next g) \<or>
         (n = 1999 \<and> used_of s p = {1..999} \<and> s' = s \<and> g' = g))"
  proof (cases "{1..999} \<subseteq> used_of s p")
    case True
    with sub have eq: "used_of s p = {1..999}" by auto
    from grn_fallback[OF True, of g] r eq show ?thesis by simp
  next
    case False
    from grn_primary[OF False, of g] r show ?thesis by auto
  qed
  then show "q \<noteq> p \<Longrightarrow> used_of s' q = used_of s q"
    and "(n \<in> {1..999} \<and> n \<notin> used_of s p \<and> used_of s' p = insert n (used_of s p) \<and> g' = rng_next g) \<or>
         (n = 1999 \<and> used_of s p = {1..999} \<and> s' = s \<and> g' = g)" by auto
qed

lemma mapping_of_cong: "mappings s' = mappings s \<Longrightarrow> mapping_of s' = mapping_of s"
  by (rule ext) (simp add: mapping_of_def)

lemma inv_grn:
  assumes inv: "mapper_inv s" and r: "get_random_number p s g = (n, s', g')"
  shows "mapper_inv s'"
proof -
  from inv have sub: "used_of s p \<subseteq> {1..999}" by (simp add: mapper_inv_def)
  note R = grn_result[OF sub r]
  have m: "mapping_of s' = mapping_of s" using R(1) by (rule mapping_of_cong)
  from R(3) show ?thesis
  proof
    assume "n = 1999 \<and> used_of s p = {1..999} \<and> s' = s \<and> g' = g"
    with inv show ?thesis by simp
  next
    assume a: "n \<in> {1..999} \<and> n \<notin> used_of s p \<and> used_of s' p = insert n (used_of s p) \<and> g' = rng_next g"
    have u: "\<And>q. used_of s' q = (if q = p then insert n (used_of s p) else used_of s q)"
      using a R(2) by auto
    have nf: "used_of s p \<noteq> {1..999}" using a by auto
    have i1: "\<forall>q. used_of s' q \<subseteq> {1..999}"
      using inv a by (auto simp: mapper_inv_def u)
    have i2: "\<forall>q v f. mapping_of s' q v = Some f \<longrightarrow>
        (\<exists>k. f = fake_name q k \<and> (k \<in> used_of s' q \<or> k = 1999 \<and> used_of s' q = {1..999}))"
    proof (intro allI impI)
      fix q v f assume "mapping_of s' q v = Some f"
      then have "mapping_of s q v = Some f" by (simp add: m)
      with inv obtain k where k: "f = fake_name q k" "k \<in> used_of s q \<or> k = 1999 \<and> used_of s q = {1..999}"
        unfolding mapper_inv_def by blast
      show "\<exists>k. f = fake_name q k \<and> (k \<in> used_of s' q \<or> k = 1999 \<and> used_of s' q = {1..999})"
        using k nf by (intro exI[of _ k]) (auto simp: u)
    qed
    have i3: "\<forall>q v1 v2 f. mapping_of s' q v1 = Some f \<longrightarrow> mapping_of s' q v2 = Some f \<longrightarrow> v1 \<noteq> v2 \<longrightarrow>
        used_of s' q = {1..999}"
    proof (intro allI impI)
      fix q v1 v2 f
      assume "mapping_of s' q v1 = Some f" "mapping_of s' q v2 = Some f" "v1 \<noteq> v2"
      then have "used_of s q = {1..999}" using inv unfolding mapper_inv_def m by blast
      with nf show "used_of s' q = {1..999}" by (auto simp: u)
    qed
    from i1 i2 i3 show ?thesis unfolding mapper_inv_def by blast
  qed
qed

lemma gfv_result:
  assumes r: "get_fake_value p v s g = (f, s', g')"
  shows "(mapping_of s p v = Some f \<and> s' = s \<and> g' = g) \<or>
         (mapping_of s p v = None \<and>
           (\<exists>n s1. get_random_number p s g = (n, s1, g') \<and> f = fake_name p n \<and>
              used_of s' = used_of s1 \<and>
              mapping_of s' = (mapping_of s)(p := (mapping_of s p)(v \<mapsto> f))))"
proof (cases "mapping_of s p v")
  case (Some f0)
  from gfv_hit[OF Some, of g] r Some show ?thesis by simp
next
  case None
  obtain n s1 g1 where g: "get_random_number p s g = (n, s1, g1)" by (cases "get_random_number p s g") auto
  have ms: "mappings s1 = mappings s" using grn_mappings[of p s g] g by simp
  from gfv_miss[OF None g] r have f: "f = fake_name p n" and g1: "g' = g1"
    and s': "s' = s1\<lparr>mappings := (mappings s)(p \<mapsto> (mapping_of s p)(v \<mapsto> fake_name p n))\<rparr>" by simp_all
  have u: "used_of s' = used_of s1" by (rule ext) (simp add: s')
  have m: "mapping_of s' = (mapping_of s)(p := (mapping_of s p)(v \<mapsto> f))"
    by (rule ext) (simp add: s' f mapping_of_def)
  from None g f g1 u m show ?thesis by blast
qed

lemma fake_name_inj_range:
  assumes "a \<in> {1..999} \<or> a = 1999" "b \<in> {1..999} \<or> b = 1999" "fake_name p a = fake_name p b"
  shows "a = b"
  using assms by (intro fake_name_inj[of a b p]) auto

lemma inv_gfv:
  assumes inv: "mapper_inv s" and r: "get_fake_value p v s g = (f, s', g')"
  shows "mapper_inv s'"
proof -
  from gfv_result[OF r] show ?thesis
  proof
    assume "mapping_of s p v = Some f \<and> s' = s \<and> g' = g"
    with inv show ?thesis by simp
  next
    assume "mapping_of s p v = None \<and>
           (\<exists>n s1. get_random_number p s g = (n, s1, g') \<and> f = fake_name p n \<and>
              used_of s' = used_of s1 \<and>
              mapping_of s' = (mapping_of s)(p := (mapping_of s p)(v \<mapsto> f)))"
    then obtain n s1 where none: "mapping_of s p v = None"
      and g: "get_random_number p s g = (n, s1, g')" and f: "f = fake_name p n"
      and u: "used_of s' = used_of s1"
      and m: "mapping_of s' = (mapping_of s)(p := (mapping_of s p)(v \<mapsto> f))" by blast
    from inv have sub: "used_of s p \<subseteq> {1..999}" by (simp add: mapper_inv_def)
    note R = grn_result[OF sub g]
    have inv1: "mapper_inv s1" using inv_grn[OF inv g] .
    have m1: "mapping_of s1 = mapping_of s" using R(1) by (rule mapping_of_cong)
    have nr: "n \<in> {1..999} \<or> n = 1999" using R(3) by auto
    have nu: "n \<in> used_of s1 p \<or> n = 1999 \<and> used_of s1 p = {1..999}" using R(3) by auto
    have i1: "\<forall>q. used_of s' q \<subseteq> {1..999}" using inv1 by (simp add: mapper_inv_def u)
    have old: "\<And>q w h. mapping_of s q w = Some h \<Longrightarrow>
        \<exists>k. h = fake_name q k \<and> (k \<in> used_of s1 q \<or> k = 1999 \<and> used_of s1 q = {1..999})"
      using inv1 unfolding mapper_inv_def m1 by blast
    have i2: "\<forall>q w h. mapping_of s' q w = Some h \<longrightarrow>
        (\<exists>k. h = fake_name q k \<and> (k \<in> used_of s' q \<or> k = 1999 \<and> used_of s' q = {1..999}))"
    proof (intro allI impI)
      fix q w h assume a: "mapping_of s' q w = Some h"
      show "\<exists>k. h = fake_name q k \<and> (k \<in> used_of s' q \<or> k = 1999 \<and> used_of s' q = {1..999})"
      proof (cases "q = p \<and> w = v")
        case True
        with a m f have "h = fake_name p n" by simp
        with True nu show ?thesis by (auto simp: u)
      next
        case False
        with a m have "mapping_of s q w = Some h" by (auto split: if_splits)
        from old[OF this] show ?thesis by (simp add: u)
      qed
    qed
    have clash: "used_of s1 p = {1..999}" if w: "w \<noteq> v" "mapping_of s p w = Some f" for w
    proof -
      from inv w(2) obtain k where k: "f = fake_name p k" "k \<in> used_of s p \<or> k = 1999 \<and> used_of s p = {1..999}"
        unfolding mapper_inv_def by blast
      have kr: "k \<in> {1..999} \<or> k = 1999" using k(2) sub by auto
      have "fake_name p n = fake_name p k" using f k(1) by simp
      then have "n = k" by (rule fake_name_inj_range[OF nr kr])
      with k(2) R(3) show ?thesis by auto
    qed
    have i3: "\<forall>q v1 v2 h. mapping_of s' q v1 = Some h \<longrightarrow> mapping_of s' q v2 = Some h \<longrightarrow> v1 \<noteq> v2 \<longrightarrow>
        used_of s' q = {1..999}"
    proof (intro allI impI)
      fix q v1 v2 h
      assume a: "mapping_of s' q v1 = Some h" "mapping_of s' q v2 = Some h" "v1 \<noteq> v2"
      show "used_of s' q = {1..999}"
      proof (cases "q = p")
        case False
        with a m have "mapping_of s q v1 = Some h" "mapping_of s q v2 = Some h" by auto
        with a(3) inv1 show ?thesis unfolding mapper_inv_def m1 u by blast
      next
        case True
        show ?thesis
        proof (cases "v1 = v \<or> v2 = v")
          case False
          with a m True have "mapping_of s p v1 = Some h" "mapping_of s p v2 = Some h" by auto
          with a(3) inv1 True show ?thesis unfolding mapper_inv_def m1 u by blast
        next
          case T: True
          have sv: "mapping_of s' p v = Some f" using m by simp
          have "\<exists>w. w \<noteq> v \<and> mapping_of s p w = Some f"
          proof (cases "v1 = v")
            case True
            with a(1) sv \<open>q = p\<close> have hf: "h = f" by simp
            from True a(3) have "v2 \<noteq> v" by simp
            moreover from this a(2) m \<open>q = p\<close> hf have "mapping_of s p v2 = Some f" by simp
            ultimately show ?thesis by blast
          next
            case False
            with T have v2: "v2 = v" by simp
            with a(2) sv \<open>q = p\<close> have hf: "h = f" by simp
            from False a(1) m \<open>q = p\<close> hf have "mapping_of s p v1 = Some f" by simp
            with False show ?thesis by blast
          qed
          then obtain w where "w \<noteq> v" "mapping_of s p w = Some f" by blast
          from clash[OF this] True show ?thesis by (simp add: u)
        qed
      qed
    qed
    from i1 i2 i3 show ?thesis unfolding mapper_inv_def by blast
  qed
qed

lemma run_inv: "mapper_inv s \<Longrightarrow> mapper_inv (fst (run cs s g))"
proof (induction cs arbitrary: s g)
  case Nil
  then show ?case by simp
next
  case (Cons c cs)
  obtain s1 g1 where st: "call_step c s g = (s1, g1)" by (cases "call_step c s g") auto
  have "mapper_inv s1"
  proof (cases c)
    case (Allocate p)
    with st obtain n where "get_random_number p s g = (n, s1, g1)"
      by (cases "get_random_number p s g") auto
    from inv_grn[OF Cons.prems this] show ?thesis .
  next
    case (GetFake p v)
    with st obtain f where "get_fake_value p v s g = (f, s1, g1)"
      by (cases "get_fake_value p v s g") auto
    from inv_gfv[OF Cons.prems this] show ?thesis .
  qed
  from Cons.IH[OF this, of g1] st show ?case by simp
qed

lemma gfv_stores:
  assumes "get_fake_value p v s g = (f, s', g')"
  shows "mapping_of s' p v = Some f"
  using gfv_result[OF assms] by auto

lemma gfv_keeps:
  assumes "get_fake_value p v s g = (f, s', g')" and "mapping_of s q w = Some h"
  shows "mapping_of s' q w = Some h"
  using gfv_result[OF assms(1)] assms(2) by auto

lemma grn_keeps:
  assumes "get_random_number p s g = (n, s', g')"
  shows "mapping_of s' = mapping_of s"
  using grn_mappings[of p s g] assms by (intro mapping_of_cong) simp

lemma call_step_keeps:
  assumes "call_step c s g = (s', g')" and "mapping_of s q w = Some h"
  shows "mapping_of s' q w = Some h"
proof (cases c)
  case (Allocate p)
  with assms(1) obtain n where "get_random_number p s g = (n, s', g')"
    by (cases "get_random_number p s g") auto
  from grn_keeps[OF this] assms(2) show ?thesis by simp
next
  case (GetFake p v)
  with assms(1) obtain f where "get_fake_value p v s g = (f, s', g')"
    by (cases "get_fake_value p v s g") auto
  from gfv_keeps[OF this assms(2)] show ?thesis .
qed

lemma run_keeps:
  "run cs s g = (s', g') \<Longrightarrow> mapping_of s q w = Some h \<Longrightarrow> mapping_of s' q w = Some h"
proof (induction cs arbitrary: s g)
  case Nil
  then show ?case by simp
next
  case (Cons c cs)
  obtain s1 g1 where st: "call_step c s g = (s1, g1)" by (cases "call_step c s g") auto
  from call_step_keeps[OF st Cons.prems(2)] have "mapping_of s1 q w = Some h" .
  moreover from Cons.prems(1) st have "run cs s1 g1 = (s', g')" by simp
  ultimately show ?case by (rule Cons.IH[rotated])
qed

lemma run_inv':
  assumes "run cs SessionMapper_init g0 = (s, g)"
  shows "mapper_inv s"
  using run_inv[OF mapper_inv_init, of cs g0] assms by simp

text \<open>
  Claim C3. A call of \<^verbatim>\<open>get_fake_value(p, v)\<close> made after an earlier call with the same
  prefix and value on the same mapper, with any calls in between, returns the pseudonym of
  the earlier call; it allocates nothing: the mapper, its used numbers and the generator
  are as before the call.
\<close>

theorem get_fake_value_consistent:
  "case get_fake_value p v s g of (f, s1, g1) \<Rightarrow>
     (case run cs s1 g1 of (s2, g2) \<Rightarrow>
        get_fake_value p v s2 g2 = (f, s2, g2) \<and>
        used_numbers (fst (snd (get_fake_value p v s2 g2))) = used_numbers s2)"
proof -
  obtain f s1 g1 where a: "get_fake_value p v s g = (f, s1, g1)"
    by (cases "get_fake_value p v s g") auto
  obtain s2 g2 where b: "run cs s1 g1 = (s2, g2)" by (cases "run cs s1 g1") auto
  have "mapping_of s2 p v = Some f" using run_keeps[OF b gfv_stores[OF a]] .
  then have "get_fake_value p v s2 g2 = (f, s2, g2)" by (rule gfv_hit)
  with a b show ?thesis by simp
qed

text \<open>
  Claim C4. In a session, let \<open>v1\<close> be mapped under \<open>p\<close>, then after any further calls let a
  different value \<open>v2\<close> be mapped under \<open>p\<close> while fewer than 999 numbers are in use for
  \<open>p\<close>. The two pseudonyms differ. (Every primary allocation adds its number to the used
  set, so below 999 the size of the set is the number of allocations made for \<open>p\<close>.)
\<close>

theorem injective_under_capacity:
  assumes ne: "v1 \<noteq> v2"
    and r0: "run cs0 SessionMapper_init g0 = (t0, h0)"
    and c1: "get_fake_value p v1 t0 h0 = (f1, t0', h0')"
    and r1: "run cs1 t0' h0' = (t1, h1)"
    and cap: "card (used_of t1 p) < 999"
    and c2: "get_fake_value p v2 t1 h1 = (f2, t2, h2)"
  shows "f1 \<noteq> f2"
proof
  assume eq: "f1 = f2"
  have inv0: "mapper_inv t0" using run_inv'[OF r0] .
  have inv0': "mapper_inv t0'" using inv_gfv[OF inv0 c1] .
  have inv1: "mapper_inv t1" using run_inv[OF inv0', of cs1 h0'] r1 by simp
  have nf: "used_of t1 p \<noteq> {1..999}" using cap by auto
  have m1: "mapping_of t1 p v1 = Some f1" using run_keeps[OF r1 gfv_stores[OF c1]] .
  from inv1 m1 nf obtain n1 where n1: "f1 = fake_name p n1" "n1 \<in> used_of t1 p"
    unfolding mapper_inv_def by blast
  from inv1 have sub: "used_of t1 p \<subseteq> {1..999}" by (simp add: mapper_inv_def)
  from gfv_result[OF c2] show False
  proof
    assume "mapping_of t1 p v2 = Some f2 \<and> t2 = t1 \<and> h2 = h1"
    with m1 eq ne inv1 have "used_of t1 p = {1..999}" unfolding mapper_inv_def by blast
    with nf show False by simp
  next
    assume "mapping_of t1 p v2 = None \<and>
           (\<exists>n s1. get_random_number p t1 h1 = (n, s1, h2) \<and> f2 = fake_name p n \<and>
              used_of t2 = used_of s1 \<and>
              mapping_of t2 = (mapping_of t1)(p := (mapping_of t1 p)(v2 \<mapsto> f2)))"
    then obtain n s1 where g: "get_random_number p t1 h1 = (n, s1, h2)" and f2: "f2 = fake_name p n"
      by blast
    from grn_result(3)[OF sub g] nf have n: "n \<in> {1..999}" "n \<notin> used_of t1 p" by auto
    have "fake_name p n1 = fake_name p n" using n1(1) f2 eq by simp
    then have "n1 = n" using n1(2) sub n(1) by (intro fake_name_inj_range) auto
    with n1(2) n(2) show False by simp
  qed
qed

text \<open>
  Claim C10. In every state a session reaches, the used numbers of every prefix lie in
  1..999, so there are at most 999 of them; a call of \<^verbatim>\<open>_get_random_number\<close> that returns
  a number from 1000 on leaves the mapper (and the generator) as it was.
\<close>

theorem used_numbers_in_primary_range:
  assumes r: "run cs SessionMapper_init g0 = (s, g)" and u: "used_numbers s p = Some u"
  shows "u \<subseteq> {1..999} \<and> finite u \<and> card u \<le> 999 \<and>
    (1000 \<le> fst (get_random_number p s g) \<longrightarrow> snd (get_random_number p s g) = (s, g))"
proof -
  have inv: "mapper_inv s" using run_inv'[OF r] .
  have uo: "used_of s p = u" using u by (simp add: used_of_def)
  with inv have sub: "u \<subseteq> {1..999}" by (auto simp: mapper_inv_def)
  then have fin: "finite u" by (rule finite_subset) simp
  have "card u \<le> card {1..999::int}" using sub by (intro card_mono) simp_all
  then have c: "card u \<le> 999" by simp
  obtain n s' g' where g: "get_random_number p s g = (n, s', g')"
    by (cases "get_random_number p s g") auto
  from sub uo have sub': "used_of s p \<subseteq> {1..999}" by simp
  from grn_result(3)[OF sub' g] have "1000 \<le> n \<longrightarrow> s' = s \<and> g' = g" by auto
  with sub fin c g show ?thesis by simp
qed

subsection \<open>Successive allocations\<close>

lemma allocs_add:
  "allocs p (a + b) s g =
     (case allocs p a s g of (ns, s1, g1) \<Rightarrow>
        (case allocs p b s1 g1 of (ms, s2, g2) \<Rightarrow> (ns @ ms, s2, g2)))"
  by (induction a arbitrary: s g) (auto split: prod.splits)

lemma allocs_primary:
  assumes "used_of s p \<subseteq> {1..999}" and "n + card (used_of s p) \<le> 999"
    and "allocs p n s g = (ns, s', g')"
  shows "length ns = n \<and> distinct ns \<and> set ns \<subseteq> {1..999} - used_of s p \<and>
         used_of s' p = used_of s p \<union> set ns"
  using assms
proof (induction n arbitrary: s g ns s' g')
  case 0
  then show ?case by simp
next
  case (Suc n)
  obtain k s1 g1 where g: "get_random_number p s g = (k, s1, g1)"
    by (cases "get_random_number p s g") auto
  obtain ms s2 g2 where a: "allocs p n s1 g1 = (ms, s2, g2)"
    by (cases "allocs p n s1 g1") auto
  from Suc.prems(3) g a have ns: "ns = k # ms" and s': "s' = s2" by simp_all
  have fin: "finite (used_of s p)" using Suc.prems(1) by (rule finite_subset) simp
  have nf: "used_of s p \<noteq> {1..999}" using Suc.prems(2) by auto
  from grn_result(3)[OF Suc.prems(1) g] nf
  have k: "k \<in> {1..999}" "k \<notin> used_of s p" "used_of s1 p = insert k (used_of s p)" by auto
  have sub1: "used_of s1 p \<subseteq> {1..999}" using k Suc.prems(1) by auto
  have c1: "n + card (used_of s1 p) \<le> 999" using k fin Suc.prems(2) by simp
  from Suc.IH[OF sub1 c1 a]
  have ih: "length ms = n" "distinct ms" "set ms \<subseteq> {1..999} - used_of s1 p"
    "used_of s2 p = used_of s1 p \<union> set ms" by auto
  show ?case using ih k by (auto simp: ns s')
qed

lemma allocs_fallback:
  assumes "used_of s p = {1..999}"
  shows "allocs p n s g = (replicate n 1999, s, g)"
proof (induction n)
  case 0
  then show ?case by simp
next
  case (Suc n)
  have "get_random_number p s g = (1999, s, g)"
    using grn_fallback[of s p g] assms by simp
  with Suc show ?case by simp
qed

lemma allocs_exhaust:
  assumes "allocs p 999 SessionMapper_init g = (ns, s, g')"
  shows "length ns = 999 \<and> distinct ns \<and> set ns = {1..999} \<and> used_of s p = {1..999}"
proof -
  have "length ns = 999 \<and> distinct ns \<and> set ns \<subseteq> {1..999} - used_of SessionMapper_init p \<and>
         used_of s p = used_of SessionMapper_init p \<union> set ns"
    by (rule allocs_primary[OF _ _ assms]) simp_all
  then have l: "length ns = 999" and d: "distinct ns" and sub: "set ns \<subseteq> {1..999}"
    and u: "used_of s p = set ns" by auto
  have "card (set ns) = 999" using l d by (simp add: distinct_card)
  then have "set ns = {1..999}" using sub by (intro card_subset_eq) simp_all
  with l d u show ?thesis by simp
qed

lemma allocs_after_exhaust:
  "\<exists>ns. length ns = 999 \<and> distinct ns \<and> set ns = {1..999} \<and>
     fst (allocs p (999 + k) SessionMapper_init g) = ns @ replicate k 1999"
proof -
  obtain ns s g' where a: "allocs p 999 SessionMapper_init g = (ns, s, g')"
    by (cases "allocs p 999 SessionMapper_init g") auto
  from allocs_exhaust[OF a] have e: "length ns = 999" "distinct ns" "set ns = {1..999}"
    "used_of s p = {1..999}" by auto
  have "fst (allocs p (999 + k) SessionMapper_init g) = ns @ replicate k 1999"
    by (simp add: allocs_add a allocs_fallback[OF e(4)])
  with e show ?thesis by blast
qed

text \<open>
  Claim C1. The claim asks that the integers returned for one prefix never repeat, also
  after the range 1..999 is used up. In a fresh session with the generator that always
  draws 0, the 1000th and the 1001st call for \<^verbatim>\<open>Vendor\<close> both return 1999: the fallback
  returns \<^verbatim>\<open>len(used) + 1000\<close> and adds nothing to \<^verbatim>\<open>used\<close>.
\<close>

theorem allocate_repeats_after_exhaustion:
  "fst (allocs ''Vendor'' 1001 SessionMapper_init rng_zero) ! 999 = 1999 \<and>
   fst (allocs ''Vendor'' 1001 SessionMapper_init rng_zero) ! 1000 = 1999 \<and>
   \<not> distinct (fst (allocs ''Vendor'' 1001 SessionMapper_init rng_zero))"
proof -
  obtain ns where ns: "length ns = 999"
    "fst (allocs ''Vendor'' (999 + 2) SessionMapper_init rng_zero) = ns @ replicate 2 1999"
    using allocs_after_exhaust[of "''Vendor''" 2 rng_zero] by blast
  have r: "replicate 2 (1999::int) = [1999, 1999]" by (simp add: numeral_2_eq_2)
  have e: "fst (allocs ''Vendor'' 1001 SessionMapper_init rng_zero) = ns @ [1999, 1999]"
    using ns(2) r by simp
  show ?thesis using ns(1) by (simp add: e nth_append)
qed

text \<open>
  Claim C2. The claim gives the fallback value as 1000 + (count issued so far - 999) and
  the fallback values as strictly increasing. At the 1000th call, 999 numbers have been
  issued and the formula gives 1000; the code returns 1999, and returns it again at the
  1001st call.
\<close>

theorem fallback_formula_counterexample:
  "fst (allocs ''Vendor'' 1001 SessionMapper_init rng_zero) ! 999 \<noteq> 1000 + (999 - 999) \<and>
   \<not> fst (allocs ''Vendor'' 1001 SessionMapper_init rng_zero) ! 999
      < fst (allocs ''Vendor'' 1001 SessionMapper_init rng_zero) ! 1000"
proof -
  obtain ns where ns: "length ns = 999"
    "fst (allocs ''Vendor'' (999 + 2) SessionMapper_init rng_zero) = ns @ replicate 2 1999"
    using allocs_after_exhaust[of "''Vendor''" 2 rng_zero] by blast
  have r: "replicate 2 (1999::int) = [1999, 1999]" by (simp add: numeral_2_eq_2)
  have e: "fst (allocs ''Vendor'' 1001 SessionMapper_init rng_zero) = ns @ [1999, 1999]"
    using ns(2) r by simp
  show ?thesis using ns(1) by (simp add: e nth_append)
qed

text \<open>
  Claim C2, as the code has it. In a fresh session of calls for one prefix, the 1000th
  call, the first after the range 1..999 is used up, returns 1000 + 999; this is greater
  than each of the 999 integers returned before, and the first 1000 integers are distinct.
\<close>

theorem first_fallback_value:
  "fst (allocs p 1000 SessionMapper_init g) ! 999 = 1000 + 999 \<and>
   (\<forall>i<999. fst (allocs p 1000 SessionMapper_init g) ! i
        < fst (allocs p 1000 SessionMapper_init g) ! 999) \<and>
   distinct (fst (allocs p 1000 SessionMapper_init g))"
proof -
  obtain ns where ns: "length ns = 999" "distinct ns" "set ns = {1..999}"
    "fst (allocs p (999 + 1) SessionMapper_init g) = ns @ replicate 1 1999"
    using allocs_after_exhaust[of p 1 g] by blast
  have e: "fst (allocs p 1000 SessionMapper_init g) = ns @ [1999]"
    using ns(4) by simp
  have "\<forall>i<999. ns ! i < 1999"
  proof (intro allI impI)
    fix i :: nat assume "i < 999"
    then have "ns ! i \<in> set ns" using ns(1) by simp
    then show "ns ! i < 1999" using ns(3) by simp
  qed
  then show ?thesis using ns(1,2,3) by (simp add: e nth_append)
qed

theorem first_fallback_value_witness:
  "(0::nat) < 999 \<and> fst (allocs ''Vendor'' 1000 SessionMapper_init rng_zero) ! 0
       < fst (allocs ''Vendor'' 1000 SessionMapper_init rng_zero) ! 999"
proof -
  have "\<forall>i<999. fst (allocs ''Vendor'' 1000 SessionMapper_init rng_zero) ! i
        < fst (allocs ''Vendor'' 1000 SessionMapper_init rng_zero) ! 999"
    using first_fallback_value[of "''Vendor''" rng_zero] by blast
  then show ?thesis by simp
qed

lemma grn_primary_eq:
  assumes "\<not> {1..999} \<subseteq> used_of s p"
  shows "get_random_number p s g =
       (filter (\<lambda>n. n \<notin> used_of s p) [1..999] ! (g 0 mod length (filter (\<lambda>n. n \<notin> used_of s p) [1..999])),
        s\<lparr>used_numbers := (used_numbers s)(p \<mapsto>
             insert (filter (\<lambda>n. n \<notin> used_of s p) [1..999] ! (g 0 mod length (filter (\<lambda>n. n \<notin> used_of s p) [1..999])))
               (used_of s p))\<rparr>,
        rng_next g)"
proof -
  have ne: "filter (\<lambda>n. n \<notin> used_of s p) [1..999] \<noteq> []" using assms by (simp add: filter_upto_empty)
  show ?thesis
  proof (cases "used_numbers s p")
    case None
    then have "used_of s p = {}" by (simp add: used_of_def)
    with None ne show ?thesis
      by (simp add: get_random_number_def Let_def dom_def)
  next
    case (Some u)
    then have "used_of s p = u" by (simp add: used_of_def)
    with Some ne show ?thesis
      by (simp add: get_random_number_def Let_def dom_def)
  qed
qed

lemma grn_first:
  assumes g: "g 0 = 0" and u: "1 \<notin> used_of s p"
  shows "get_random_number p s g =
     (1, s\<lparr>used_numbers := (used_numbers s)(p \<mapsto> insert 1 (used_of s p))\<rparr>, rng_next g)"
proof -
  have "(1::int) \<in> {1..999}" by simp
  with u have nf: "\<not> {1..999} \<subseteq> used_of s p" by blast
  have up: "[1..999::int] = 1 # [2..999]" by (subst upto_rec1) simp_all
  have "filter (\<lambda>n. n \<notin> used_of s p) [1..999] ! (g 0 mod length (filter (\<lambda>n. n \<notin> used_of s p) [1..999])) = 1"
    using u by (simp add: up g)
  with grn_primary_eq[OF nf, of g] show ?thesis by simp
qed

lemma rng_zero_0: "rng_zero 0 = 0" by (simp add: rng_zero_def)

lemma gfv_first:
  assumes g: "g 0 = 0" and u: "1 \<notin> used_of s p" and m: "mapping_of s p v = None"
  shows "get_fake_value p v s g =
     (fake_name p 1,
      s\<lparr>used_numbers := (used_numbers s)(p \<mapsto> insert 1 (used_of s p)),
        mappings := (mappings s)(p \<mapsto> (mapping_of s p)(v \<mapsto> fake_name p 1))\<rparr>, rng_next g)"
  using gfv_miss[OF m grn_first[of g s p, OF g u]] by simp

lemma fake_name_1: "fake_name p 1 = p @ ''_001''"
  by (simp add: fake_name_def str_int_def str_nat_digit digit_char_def zfill_def numeral_2_eq_2)

lemma digit_char_mem: "d < 10 \<Longrightarrow> digit_char d \<in> set ''0123456789''"
  unfolding digit_char_def by (rule nth_mem) simp

lemma str_nat_digits: "set (str_nat n) \<subseteq> set ''0123456789''"
proof (induction n rule: str_nat.induct)
  case (1 n)
  show ?case
  proof (cases "n < 10")
    case True
    then show ?thesis using digit_char_mem[of n] by (simp add: str_nat.simps[of n])
  next
    case False
    then have "set (str_nat (n div 10)) \<subseteq> set ''0123456789''" using 1 by simp
    moreover have "digit_char (n mod 10) \<in> set ''0123456789''" by (rule digit_char_mem) simp
    ultimately show ?thesis using False by (simp add: str_nat.simps[of n])
  qed
qed

lemma zfill3_facts:
  assumes "0 \<le> n"
  shows "zfill 3 (str_int n) = replicate (3 - length (str_int n)) CHR ''0'' @ str_int n"
    and "3 \<le> length (zfill 3 (str_int n))"
    and "1000 \<le> n \<Longrightarrow> zfill 3 (str_int n) = str_int n"
    and "set (str_int n) \<subseteq> set ''0123456789''"
    and "int (digits_val (str_int n)) = n"
proof -
  have s: "str_int n = str_nat (nat n)" using assms by (rule str_int_nonneg)
  show z: "zfill 3 (str_int n) = replicate (3 - length (str_int n)) CHR ''0'' @ str_int n"
    by (simp add: s zfill_str_nat)
  show "3 \<le> length (zfill 3 (str_int n))" by (simp add: z)
  show "zfill 3 (str_int n) = str_int n" if "1000 \<le> n"
  proof -
    from that have "1000 \<le> nat n" by simp
    from str_nat_length_ge[OF this] show ?thesis by (simp add: s zfill_def)
  qed
  show "set (str_int n) \<subseteq> set ''0123456789''" unfolding s by (rule str_nat_digits)
  show "int (digits_val (str_int n)) = n" using assms by (simp add: s digits_val_str_nat)
qed

lemma gfv_form:
  assumes r: "run cs SessionMapper_init g0 = (s, g)"
  shows "\<exists>n. (n \<in> {1..999} \<or> n = 1999) \<and> fst (get_fake_value p v s g) = fake_name p n \<and>
     (mapping_of s p v = None \<longrightarrow> n = fst (get_random_number p s g))"
proof -
  have inv: "mapper_inv s" using run_inv'[OF r] .
  then have sub: "used_of s p \<subseteq> {1..999}" by (simp add: mapper_inv_def)
  obtain f s' g' where c: "get_fake_value p v s g = (f, s', g')"
    by (cases "get_fake_value p v s g") auto
  from gfv_result[OF c] show ?thesis
  proof
    assume h: "mapping_of s p v = Some f \<and> s' = s \<and> g' = g"
    with inv obtain n where "f = fake_name p n" "n \<in> used_of s p \<or> n = 1999 \<and> used_of s p = {1..999}"
      unfolding mapper_inv_def by blast
    with sub h c show ?thesis by (intro exI[of _ n]) auto
  next
    assume "mapping_of s p v = None \<and>
           (\<exists>n s1. get_random_number p s g = (n, s1, g') \<and> f = fake_name p n \<and>
              used_of s' = used_of s1 \<and>
              mapping_of s' = (mapping_of s)(p := (mapping_of s p)(v \<mapsto> f)))"
    then obtain n s1 where g: "get_random_number p s g = (n, s1, g')" and f: "f = fake_name p n"
      by blast
    from grn_result(3)[OF sub g] have "n \<in> {1..999} \<or> n = 1999" by auto
    with g f c show ?thesis by (intro exI[of _ n]) simp
  qed
qed

text \<open>
  Claim C7. In every state a session reaches, \<^verbatim>\<open>get_fake_value(p, v)\<close> returns \<open>p\<close>, an
  underscore and the decimal digits of an integer \<open>n \<ge> 1\<close> with zeros on the left up to
  three characters; from 1000 on the digits stand alone. When \<open>v\<close> is new under \<open>p\<close>, \<open>n\<close> is
  the integer \<^verbatim>\<open>_get_random_number\<close> returns in that state.
\<close>

theorem pseudonym_format:
  assumes "run cs SessionMapper_init g0 = (s, g)"
  shows "\<exists>n. 1 \<le> n \<and> fst (get_fake_value p v s g) = p @ ''_'' @ zfill 3 (str_int n) \<and>
     zfill 3 (str_int n) = replicate (3 - length (str_int n)) CHR ''0'' @ str_int n \<and>
     3 \<le> length (zfill 3 (str_int n)) \<and>
     (1000 \<le> n \<longrightarrow> zfill 3 (str_int n) = str_int n) \<and>
     set (str_int n) \<subseteq> set ''0123456789'' \<and> int (digits_val (str_int n)) = n \<and>
     (mapping_of s p v = None \<longrightarrow> n = fst (get_random_number p s g))"
proof -
  from gfv_form[OF assms, of p v] obtain n where N: "(n \<in> {1..999} \<or> n = 1999) \<and>
     fst (get_fake_value p v s g) = fake_name p n \<and>
     (mapping_of s p v = None \<longrightarrow> n = fst (get_random_number p s g))" by (rule exE)
  note n = N[THEN conjunct1] N[THEN conjunct2, THEN conjunct1] N[THEN conjunct2, THEN conjunct2]
  have n0: "0 \<le> n" and n1: "1 \<le> n" using n(1) by auto
  note Z = zfill3_facts[OF n0]
  have f: "fst (get_fake_value p v s g) = p @ ''_'' @ zfill 3 (str_int n)"
    using n(2) by (simp only: fake_name_def)
  have big: "1000 \<le> n \<longrightarrow> zfill 3 (str_int n) = str_int n" by (rule impI) (rule Z(3))
  show ?thesis
  proof (rule exI[of _ n], intro conjI)
    show "1 \<le> n" by (rule n1)
    show "fst (get_fake_value p v s g) = p @ ''_'' @ zfill 3 (str_int n)" by (rule f)
    show "zfill 3 (str_int n) = replicate (3 - length (str_int n)) CHR ''0'' @ str_int n"
      by (rule Z(1))
    show "3 \<le> length (zfill 3 (str_int n))" by (rule Z(2))
    show "1000 \<le> n \<longrightarrow> zfill 3 (str_int n) = str_int n" by (rule big)
    show "set (str_int n) \<subseteq> set ''0123456789''" by (rule Z(4))
    show "int (digits_val (str_int n)) = n" by (rule Z(5))
    show "mapping_of s p v = None \<longrightarrow> n = fst (get_random_number p s g)" by (rule n(3))
  qed
qed

theorem pseudonym_format_witness:
  "run [] SessionMapper_init rng_zero = (SessionMapper_init, rng_zero) \<and>
   (\<exists>n. 1 \<le> n \<and>
     fst (get_fake_value ''Vendor'' ''Acme'' SessionMapper_init rng_zero) = ''Vendor'' @ ''_'' @ zfill 3 (str_int n) \<and>
     zfill 3 (str_int n) = replicate (3 - length (str_int n)) CHR ''0'' @ str_int n \<and>
     3 \<le> length (zfill 3 (str_int n)) \<and>
     (1000 \<le> n \<longrightarrow> zfill 3 (str_int n) = str_int n) \<and>
     set (str_int n) \<subseteq> set ''0123456789'' \<and> int (digits_val (str_int n)) = n \<and>
     (mapping_of SessionMapper_init ''Vendor'' ''Acme'' = None \<longrightarrow>
        n = fst (get_random_number ''Vendor'' SessionMapper_init rng_zero)))"
proof -
  have r: "run [] SessionMapper_init rng_zero = (SessionMapper_init, rng_zero)" by simp
  show ?thesis by (intro conjI r pseudonym_format[OF r])
qed

text \<open>
  Claim C5. The claim asks for an error when the prefix is the empty string. The code
  has no such check: in a fresh session \<^verbatim>\<open>get_fake_value("", "Acme")\<close> returns \<^verbatim>\<open>_001\<close>
  and records the mapping.
\<close>

theorem empty_prefix_counterexample:
  "get_fake_value [] ''Acme'' SessionMapper_init rng_zero =
     (''_001'',
      SessionMapper_init\<lparr>used_numbers := (used_numbers SessionMapper_init)([] \<mapsto> {1}),
        mappings := (mappings SessionMapper_init)([] \<mapsto> [''Acme'' \<mapsto> ''_001''])\<rparr>,
      rng_next rng_zero)"
  using gfv_first[of rng_zero SessionMapper_init "[]" "''Acme''"]
  by (simp add: rng_zero_0 fake_name_1)

text \<open>
  Claim C5, as the code has it. For the empty prefix \<^verbatim>\<open>get_fake_value\<close> raises nothing:
  in every state a session reaches it returns an underscore followed by an integer
  \<open>n \<ge> 1\<close> with zeros on the left up to three characters, and afterwards the mapping of the
  empty prefix holds that pseudonym for the value. For a new value \<open>n\<close> is the integer
  \<^verbatim>\<open>_get_random_number("")\<close> returns, and the mapper is the one the allocator left with
  the new entry stored; for a known value the stored pseudonym is returned and nothing
  changes.
\<close>

theorem empty_prefix_accepted:
  assumes r: "run cs SessionMapper_init g0 = (s, g)"
    and c: "get_fake_value [] v s g = (f, s', g')"
  shows "\<exists>n. 1 \<le> n \<and> f = CHR ''_'' # zfill 3 (str_int n) \<and>
     zfill 3 (str_int n) = replicate (3 - length (str_int n)) CHR ''0'' @ str_int n \<and>
     3 \<le> length (zfill 3 (str_int n)) \<and>
     mapping_of s' [] v = Some f \<and>
     (mapping_of s [] v = None \<longrightarrow>
        n = fst (get_random_number [] s g) \<and>
        s' = (fst (snd (get_random_number [] s g)))
               \<lparr>mappings := (mappings s)([] \<mapsto> (mapping_of s [])(v \<mapsto> f))\<rparr> \<and>
        g' = snd (snd (get_random_number [] s g))) \<and>
     (mapping_of s [] v \<noteq> None \<longrightarrow> mapping_of s [] v = Some f \<and> s' = s \<and> g' = g)"
proof -
  from gfv_form[OF r, of "[]" v] obtain n where N: "(n \<in> {1..999} \<or> n = 1999) \<and>
     fst (get_fake_value [] v s g) = fake_name [] n \<and>
     (mapping_of s [] v = None \<longrightarrow> n = fst (get_random_number [] s g))" by (rule exE)
  note n = N[THEN conjunct1] N[THEN conjunct2, THEN conjunct1] N[THEN conjunct2, THEN conjunct2]
  have n0: "0 \<le> n" and n1: "1 \<le> n" using n(1) by auto
  note Z = zfill3_facts[OF n0]
  have f: "f = CHR ''_'' # zfill 3 (str_int n)"
    using n(2) c by (simp add: fake_name_def)
  have st: "mapping_of s' [] v = Some f" using gfv_stores[OF c] .
  have miss: "mapping_of s [] v = None \<longrightarrow>
        n = fst (get_random_number [] s g) \<and>
        s' = (fst (snd (get_random_number [] s g)))
               \<lparr>mappings := (mappings s)([] \<mapsto> (mapping_of s [])(v \<mapsto> f))\<rparr> \<and>
        g' = snd (snd (get_random_number [] s g))"
  proof
    assume none: "mapping_of s [] v = None"
    obtain k s1 g1 where g: "get_random_number [] s g = (k, s1, g1)"
      by (cases "get_random_number [] s g") auto
    from gfv_miss[OF none g] c
    have e: "f = fake_name [] k" "g' = g1"
      "s' = s1\<lparr>mappings := (mappings s)([] \<mapsto> (mapping_of s [])(v \<mapsto> fake_name [] k))\<rparr>"
      by simp_all
    from n(3) none g have nk: "n = k" by simp
    show "n = fst (get_random_number [] s g) \<and>
        s' = (fst (snd (get_random_number [] s g)))
               \<lparr>mappings := (mappings s)([] \<mapsto> (mapping_of s [])(v \<mapsto> f))\<rparr> \<and>
        g' = snd (snd (get_random_number [] s g))"
      using e nk by (simp add: g)
  qed
  have hit: "mapping_of s [] v \<noteq> None \<longrightarrow> mapping_of s [] v = Some f \<and> s' = s \<and> g' = g"
  proof
    assume "mapping_of s [] v \<noteq> None"
    then obtain h where h: "mapping_of s [] v = Some h" by auto
    from gfv_hit[OF h, of g] c have "f = h" "s' = s" "g' = g" by simp_all
    with h show "mapping_of s [] v = Some f \<and> s' = s \<and> g' = g" by simp
  qed
  show ?thesis
  proof (rule exI[of _ n], intro conjI)
    show "1 \<le> n" by (rule n1)
    show "f = CHR ''_'' # zfill 3 (str_int n)" by (rule f)
    show "zfill 3 (str_int n) = replicate (3 - length (str_int n)) CHR ''0'' @ str_int n"
      by (rule Z(1))
    show "3 \<le> length (zfill 3 (str_int n))" by (rule Z(2))
    show "mapping_of s' [] v = Some f" by (rule st)
    show "mapping_of s [] v = None \<longrightarrow>
        n = fst (get_random_number [] s g) \<and>
        s' = (fst (snd (get_random_number [] s g)))
               \<lparr>mappings := (mappings s)([] \<mapsto> (mapping_of s [])(v \<mapsto> f))\<rparr> \<and>
        g' = snd (snd (get_random_number [] s g))" by (rule miss)
    show "mapping_of s [] v \<noteq> None \<longrightarrow> mapping_of s [] v = Some f \<and> s' = s \<and> g' = g"
      by (rule hit)
  qed
qed

theorem empty_prefix_accepted_witness:
  "run [] SessionMapper_init rng_zero = (SessionMapper_init, rng_zero) \<and>
   get_fake_value [] ''Acme'' SessionMapper_init rng_zero =
     (''_001'',
      SessionMapper_init\<lparr>used_numbers := (used_numbers SessionMapper_init)([] \<mapsto> {1}),
        mappings := (mappings SessionMapper_init)([] \<mapsto> [''Acme'' \<mapsto> ''_001''])\<rparr>,
      rng_next rng_zero) \<and>
   (\<exists>n. 1 \<le> n \<and> ''_001'' = CHR ''_'' # zfill 3 (str_int n) \<and>
      mapping_of (SessionMapper_init\<lparr>used_numbers := (used_numbers SessionMapper_init)([] \<mapsto> {1}),
        mappings := (mappings SessionMapper_init)([] \<mapsto> [''Acme'' \<mapsto> ''_001''])\<rparr>) [] ''Acme''
        = Some ''_001'')"
proof -
  let ?s' = "SessionMapper_init\<lparr>used_numbers := (used_numbers SessionMapper_init)([] \<mapsto> {1}),
        mappings := (mappings SessionMapper_init)([] \<mapsto> [''Acme'' \<mapsto> ''_001''])\<rparr>"
  have r: "run [] SessionMapper_init rng_zero = (SessionMapper_init, rng_zero)" by simp
  have c: "get_fake_value [] ''Acme'' SessionMapper_init rng_zero = (''_001'', ?s', rng_next rng_zero)"
    using gfv_first[of rng_zero SessionMapper_init "[]" "''Acme''"]
    by (simp add: rng_zero_0 fake_name_1)
  from empty_prefix_accepted[OF r c] obtain n where N: "1 \<le> n \<and> ''_001'' = CHR ''_'' # zfill 3 (str_int n) \<and>
     zfill 3 (str_int n) = replicate (3 - length (str_int n)) CHR ''0'' @ str_int n \<and>
     3 \<le> length (zfill 3 (str_int n)) \<and>
     mapping_of ?s' [] ''Acme'' = Some ''_001'' \<and>
     (mapping_of SessionMapper_init [] ''Acme'' = None \<longrightarrow>
        n = fst (get_random_number [] SessionMapper_init rng_zero) \<and>
        ?s' = (fst (snd (get_random_number [] SessionMapper_init rng_zero)))
               \<lparr>mappings := (mappings SessionMapper_init)([] \<mapsto> (mapping_of SessionMapper_init [])(''Acme'' \<mapsto> ''_001''))\<rparr> \<and>
        rng_next rng_zero = snd (snd (get_random_number [] SessionMapper_init rng_zero))) \<and>
     (mapping_of SessionMapper_init [] ''Acme'' \<noteq> None \<longrightarrow>
        mapping_of SessionMapper_init [] ''Acme'' = Some ''_001'' \<and> ?s' = SessionMapper_init \<and> rng_next rng_zero = rng_zero)"
    by (rule exE)
  have e: "\<exists>n. 1 \<le> n \<and> ''_001'' = CHR ''_'' # zfill 3 (str_int n) \<and>
      mapping_of ?s' [] ''Acme'' = Some ''_001''"
    by (rule exI[of _ n]) (intro conjI N[THEN conjunct1] N[THEN conjunct2, THEN conjunct1]
          N[THEN conjunct2, THEN conjunct2, THEN conjunct2, THEN conjunct2, THEN conjunct1])
  show ?thesis by (intro conjI r c e)
qed

theorem injective_under_capacity_witness:
  "''Acme'' \<noteq> ''Boeing'' \<and>
   run [] SessionMapper_init rng_zero = (SessionMapper_init, rng_zero) \<and>
   card (used_of (fst (snd (get_fake_value ''Vendor'' ''Acme'' SessionMapper_init rng_zero))) ''Vendor'') < 999 \<and>
   fst (get_fake_value ''Vendor'' ''Acme'' SessionMapper_init rng_zero) \<noteq>
   fst (get_fake_value ''Vendor'' ''Boeing''
          (fst (snd (get_fake_value ''Vendor'' ''Acme'' SessionMapper_init rng_zero)))
          (snd (snd (get_fake_value ''Vendor'' ''Acme'' SessionMapper_init rng_zero))))"
proof -
  let ?c1 = "get_fake_value ''Vendor'' ''Acme'' SessionMapper_init rng_zero"
  let ?c2 = "get_fake_value ''Vendor'' ''Boeing'' (fst (snd ?c1)) (snd (snd ?c1))"
  have ne: "''Acme'' \<noteq> ''Boeing''" by simp
  have r0: "run [] SessionMapper_init rng_zero = (SessionMapper_init, rng_zero)" by simp
  have c1: "?c1 = (fst ?c1, fst (snd ?c1), snd (snd ?c1))" by simp
  have r1: "run [] (fst (snd ?c1)) (snd (snd ?c1)) = (fst (snd ?c1), snd (snd ?c1))" by simp
  have e: "?c1 = (fake_name ''Vendor'' 1,
      SessionMapper_init\<lparr>used_numbers := (used_numbers SessionMapper_init)(''Vendor'' \<mapsto> insert 1 (used_of SessionMapper_init ''Vendor'')),
        mappings := (mappings SessionMapper_init)(''Vendor'' \<mapsto> (mapping_of SessionMapper_init ''Vendor'')(''Acme'' \<mapsto> fake_name ''Vendor'' 1))\<rparr>, rng_next rng_zero)"
    by (rule gfv_first) (simp_all add: rng_zero_0)
  have cap: "card (used_of (fst (snd ?c1)) ''Vendor'') < 999" by (simp add: e)
  have c2: "?c2 = (fst ?c2, fst (snd ?c2), snd (snd ?c2))" by simp
  show ?thesis by (intro conjI ne r0 cap injective_under_capacity[OF ne r0 c1 r1 cap c2])
qed

theorem used_numbers_in_primary_range_witness:
  "run [Allocate ''Vendor''] SessionMapper_init rng_zero =
     (SessionMapper_init\<lparr>used_numbers := (used_numbers SessionMapper_init)(''Vendor'' \<mapsto> {1})\<rparr>,
      rng_next rng_zero) \<and>
   used_numbers (SessionMapper_init\<lparr>used_numbers := (used_numbers SessionMapper_init)(''Vendor'' \<mapsto> {1})\<rparr>)
      ''Vendor'' = Some {1} \<and>
   {1::int} \<subseteq> {1..999} \<and> finite {1::int} \<and> card {1::int} \<le> 999"
proof -
  let ?s = "SessionMapper_init\<lparr>used_numbers := (used_numbers SessionMapper_init)(''Vendor'' \<mapsto> {1})\<rparr>"
  have g: "get_random_number ''Vendor'' SessionMapper_init rng_zero = (1, ?s, rng_next rng_zero)"
    using grn_first[of rng_zero SessionMapper_init "''Vendor''"] by (simp add: rng_zero_0)
  have r: "run [Allocate ''Vendor''] SessionMapper_init rng_zero = (?s, rng_next rng_zero)"
    by (simp add: g)
  have u: "used_numbers ?s ''Vendor'' = Some {1}" by simp
  note T = used_numbers_in_primary_range[OF r u]
  show ?thesis
    by (intro conjI r u T[THEN conjunct1] T[THEN conjunct2, THEN conjunct1]
          T[THEN conjunct2, THEN conjunct2, THEN conjunct1])
qed

lemma rv_na: "isna v \<Longrightarrow> replace_value p v m g = (v, m, g)"
  by (simp add: replace_value_def)

lemma rv_result:
  assumes "replace_value p v m g = (v', m', g')"
  shows "(isna v \<and> v' = v \<and> m' = m \<and> g' = g) \<or>
         (\<not> isna v \<and> (\<exists>f. get_fake_value p (str v) m g = (f, m', g') \<and> v' = Text f))"
proof (cases "isna v")
  case True
  with assms show ?thesis by (simp add: replace_value_def)
next
  case False
  obtain f m1 g1 where c: "get_fake_value p (str v) m g = (f, m1, g1)"
    by (cases "get_fake_value p (str v) m g") auto
  with assms False show ?thesis by (simp add: replace_value_def)
qed

lemma rv_keeps:
  assumes "replace_value p v m g = (v', m', g')" and "mapping_of m q w = Some h"
  shows "mapping_of m' q w = Some h"
  using rv_result[OF assms(1)] assms(2) gfv_keeps by auto

lemma rv_keys:
  assumes "replace_value p v m g = (v', m', g')" and "mapping_of m' q k = Some f"
  shows "mapping_of m q k = Some f \<or> (q = p \<and> \<not> isna v \<and> k = str v)"
proof -
  from rv_result[OF assms(1)] show ?thesis
  proof
    assume "isna v \<and> v' = v \<and> m' = m \<and> g' = g"
    with assms(2) show ?thesis by simp
  next
    assume a: "\<not> isna v \<and> (\<exists>f. get_fake_value p (str v) m g = (f, m', g') \<and> v' = Text f)"
    then obtain f0 where c: "get_fake_value p (str v) m g = (f0, m', g')" by auto
    from gfv_result[OF c] show ?thesis
    proof
      assume "mapping_of m p (str v) = Some f0 \<and> m' = m \<and> g' = g"
      with assms(2) show ?thesis by simp
    next
      assume "mapping_of m p (str v) = None \<and>
           (\<exists>n s1. get_random_number p m g = (n, s1, g') \<and> f0 = fake_name p n \<and>
              used_of m' = used_of s1 \<and>
              mapping_of m' = (mapping_of m)(p := (mapping_of m p)(str v \<mapsto> f0)))"
      then have e: "mapping_of m' = (mapping_of m)(p := (mapping_of m p)(str v \<mapsto> f0))" by auto
      show ?thesis
      proof (cases "q = p \<and> k = str v")
        case True
        with a show ?thesis by simp
      next
        case False
        with assms(2) e have "mapping_of m q k = Some f" by (auto split: if_splits)
        then show ?thesis by simp
      qed
    qed
  qed
qed

lemma sa_length:
  "series_apply p cells m g = (out, m', g') \<Longrightarrow> length out = length cells"
proof (induction cells arbitrary: m g out m' g')
  case Nil
  then show ?case by simp
next
  case (Cons v vs)
  obtain v' m1 g1 where r: "replace_value p v m g = (v', m1, g1)"
    by (cases "replace_value p v m g") auto
  obtain vs' m2 g2 where s: "series_apply p vs m1 g1 = (vs', m2, g2)"
    by (cases "series_apply p vs m1 g1") auto
  from Cons.prems r s have "out = v' # vs'" by simp
  with Cons.IH[OF s] show ?case by simp
qed

lemma sa_keeps:
  "series_apply p cells m g = (out, m', g') \<Longrightarrow> mapping_of m q w = Some h \<Longrightarrow>
     mapping_of m' q w = Some h"
proof (induction cells arbitrary: m g out m' g')
  case Nil
  then show ?case by simp
next
  case (Cons v vs)
  obtain v' m1 g1 where r: "replace_value p v m g = (v', m1, g1)"
    by (cases "replace_value p v m g") auto
  obtain vs' m2 g2 where s: "series_apply p vs m1 g1 = (vs', m2, g2)"
    by (cases "series_apply p vs m1 g1") auto
  from Cons.prems(1) r s have e: "m' = m2" by simp
  have "mapping_of m1 q w = Some h" using rv_keeps[OF r Cons.prems(2)] .
  from Cons.IH[OF s this] e show ?case by simp
qed

lemma sa_cells:
  assumes "series_apply p cells m g = (out, m', g')" and "j < length cells"
  shows "if isna (cells ! j) then out ! j = cells ! j
         else (\<exists>f. mapping_of m' p (str (cells ! j)) = Some f \<and> out ! j = Text f)"
  using assms
proof (induction cells arbitrary: m g out j m' g')
  case Nil
  then show ?case by simp
next
  case (Cons v vs)
  obtain v' m1 g1 where r: "replace_value p v m g = (v', m1, g1)"
    by (cases "replace_value p v m g") auto
  obtain vs' m2 g2 where s: "series_apply p vs m1 g1 = (vs', m2, g2)"
    by (cases "series_apply p vs m1 g1") auto
  from Cons.prems(1) r s have o: "out = v' # vs'" and e: "m' = m2" by simp_all
  show ?case
  proof (cases j)
    case 0
    from rv_result[OF r] show ?thesis
    proof
      assume "isna v \<and> v' = v \<and> m1 = m \<and> g1 = g"
      then show ?thesis by (simp add: 0 o)
    next
      assume a: "\<not> isna v \<and> (\<exists>f. get_fake_value p (str v) m g = (f, m1, g1) \<and> v' = Text f)"
      then obtain f where c: "get_fake_value p (str v) m g = (f, m1, g1)" and v': "v' = Text f"
        by auto
      have "mapping_of m1 p (str v) = Some f" using gfv_stores[OF c] .
      then have "mapping_of m2 p (str v) = Some f" by (rule sa_keeps[OF s])
      with a v' show ?thesis by (simp add: 0 o e)
    qed
  next
    case (Suc i)
    with Cons.prems(2) have "i < length vs" by simp
    from Cons.IH[OF s this] show ?thesis by (simp add: Suc o e)
  qed
qed

lemma sa_keys:
  "series_apply p cells m g = (out, m', g') \<Longrightarrow> mapping_of m' q k = Some f \<Longrightarrow>
     mapping_of m q k = Some f \<or> (q = p \<and> (\<exists>v\<in>set cells. \<not> isna v \<and> k = str v))"
proof (induction cells arbitrary: m g out m' g')
  case Nil
  then show ?case by simp
next
  case (Cons v vs)
  obtain v' m1 g1 where r: "replace_value p v m g = (v', m1, g1)"
    by (cases "replace_value p v m g") auto
  obtain vs' m2 g2 where s: "series_apply p vs m1 g1 = (vs', m2, g2)"
    by (cases "series_apply p vs m1 g1") auto
  from Cons.prems(1) r s have e: "m' = m2" by simp
  from Cons.IH[OF s] Cons.prems(2) e
  have "mapping_of m1 q k = Some f \<or> (q = p \<and> (\<exists>v\<in>set vs. \<not> isna v \<and> k = str v))" by simp
  then show ?case
  proof
    assume "mapping_of m1 q k = Some f"
    from rv_keys[OF r this] show ?thesis by auto
  next
    assume "q = p \<and> (\<exists>v\<in>set vs. \<not> isna v \<and> k = str v)"
    then show ?thesis by auto
  qed
qed

lemma update_rel:
  assumes "map_of al k = Some xs" and "P (k, xs) (k, ys)" and "\<And>e. P e e"
  shows "list_all2 P al (AList.update k ys al)"
  using assms(1)
proof (induction al)
  case Nil
  then show ?case by simp
next
  case (Cons e al)
  show ?case
  proof (cases "fst e = k")
    case True
    with Cons.prems have "e = (k, xs)" by (cases e) simp
    with assms(2,3) show ?thesis by (simp add: list_all2_refl)
  next
    case False
    with Cons.prems have "map_of al k = Some xs" by (cases e) (simp split: if_splits)
    from Cons.IH[OF this] False assms(3) show ?thesis by simp
  qed
qed

lemma pc_rel:
  assumes refl: "\<And>e. P e e"
    and trans: "\<And>a b c. P a b \<Longrightarrow> P b c \<Longrightarrow> P a c"
    and step: "\<And>c p xs m g. (c, p) \<in> set cps \<Longrightarrow> P (c, xs) (c, fst (series_apply p xs m g))"
  shows "list_all2 P df (fst (snd (pseudonymize_columns cps df m g)))"
  using step
proof (induction cps arbitrary: df m g)
  case Nil
  show ?case using refl by (simp add: list_all2_refl)
next
  case (Cons cp cps)
  obtain c p where cp: "cp = (c, p)" by (cases cp) auto
  show ?case
  proof (cases "map_of df c")
    case None
    then show ?thesis using refl by (simp add: cp list_all2_refl)
  next
    case (Some xs)
    obtain ys m1 g1 where s: "series_apply p xs m g = (ys, m1, g1)"
      by (cases "series_apply p xs m g") auto
    have "P (c, xs) (c, fst (series_apply p xs m g))" by (rule Cons.prems) (simp add: cp)
    then have "P (c, xs) (c, ys)" by (simp add: s)
    then have a: "list_all2 P df (AList.update c ys df)" using refl by (rule update_rel[OF Some])
    have b: "list_all2 P (AList.update c ys df)
        (fst (snd (pseudonymize_columns cps (AList.update c ys df) m1 g1)))"
      by (rule Cons.IH) (rule Cons.prems, simp)
    have "list_all2 P df (fst (snd (pseudonymize_columns cps (AList.update c ys df) m1 g1)))"
      by (rule list_all2_trans[OF _ a b]) (rule trans)
    then show ?thesis by (simp add: cp Some s)
  qed
qed

lemma pc_names: "map fst (fst (snd (pseudonymize_columns cps df m g))) = map fst df"
proof -
  have "list_all2 (\<lambda>e e'. fst e' = fst e) df (fst (snd (pseudonymize_columns cps df m g)))"
    by (rule pc_rel) simp_all
  then have "list_all2 (\<lambda>a b. a = b) (map fst (fst (snd (pseudonymize_columns cps df m g)))) (map fst df)"
    by (simp add: list_all2_map1 list_all2_map2 list_all2_conv_all_nth)
  then show ?thesis by (simp add: list_all2_eq[symmetric])
qed

lemma pc_ok:
  "fst ` set cps \<subseteq> fst ` set df \<Longrightarrow> fst (pseudonymize_columns cps df m g) = Inr ()"
proof (induction cps arbitrary: df m g)
  case Nil
  then show ?case by simp
next
  case (Cons cp cps)
  obtain c p where cp: "cp = (c, p)" by (cases cp) auto
  from Cons.prems cp have "c \<in> fst ` set df" by simp
  then obtain xs where xs: "map_of df c = Some xs"
    by (cases "map_of df c") (simp_all add: map_of_eq_None_iff)
  obtain ys m1 g1 where s: "series_apply p xs m g = (ys, m1, g1)"
    by (cases "series_apply p xs m g") auto
  have "fst ` set cps \<subseteq> fst ` set (AList.update c ys df)"
    using Cons.prems by (auto simp: AList.dom_update)
  from Cons.IH[OF this] show ?case by (simp add: cp xs s)
qed

lemma pc_append:
  "pseudonymize_columns (xs @ ys) df m g =
     (case pseudonymize_columns xs df m g of
        (Inl e, st) \<Rightarrow> (Inl e, st)
      | (Inr u, df1, m1, g1) \<Rightarrow> pseudonymize_columns ys df1 m1 g1)"
proof (induction xs arbitrary: df m g)
  case Nil
  then show ?case by simp
next
  case (Cons cp xs)
  obtain c p where cp: "cp = (c, p)" by (cases cp) auto
  show ?case
  proof (cases "map_of df c")
    case None
    then show ?thesis by (simp add: cp)
  next
    case (Some cells)
    obtain out m1 g1 where s: "series_apply p cells m g = (out, m1, g1)"
      by (cases "series_apply p cells m g") auto
    show ?thesis by (simp add: cp Some s Cons.IH)
  qed
qed

lemma pc_map_of_other:
  "c \<notin> fst ` set cps \<Longrightarrow> map_of (fst (snd (pseudonymize_columns cps df m g))) c = map_of df c"
proof (induction cps arbitrary: df m g)
  case Nil
  then show ?case by simp
next
  case (Cons cp cps)
  obtain c0 p0 where cp: "cp = (c0, p0)" by (cases cp) auto
  from Cons.prems cp have ne: "c \<noteq> c0" and nin: "c \<notin> fst ` set cps" by auto
  show ?case
  proof (cases "map_of df c0")
    case None
    then show ?thesis by (simp add: cp)
  next
    case (Some cells)
    obtain out m1 g1 where s: "series_apply p0 cells m g = (out, m1, g1)"
      by (cases "series_apply p0 cells m g") auto
    have "map_of (fst (snd (pseudonymize_columns cps (AList.update c0 out df) m1 g1))) c
        = map_of (AList.update c0 out df) c" by (rule Cons.IH[OF nin])
    also have "\<dots> = map_of df c" using ne by (simp add: AList.update_conv')
    finally show ?thesis by (simp add: cp Some s)
  qed
qed

lemma pc_keeps:
  "pseudonymize_columns cps df m g = (res, df', m', g') \<Longrightarrow> mapping_of m q w = Some h \<Longrightarrow>
     mapping_of m' q w = Some h"
proof (induction cps arbitrary: df m g)
  case Nil
  then show ?case by simp
next
  case (Cons cp cps)
  obtain c p where cp: "cp = (c, p)" by (cases cp) auto
  show ?case
  proof (cases "map_of df c")
    case None
    with Cons.prems show ?thesis by (simp add: cp)
  next
    case (Some cells)
    obtain out m1 g1 where s: "series_apply p cells m g = (out, m1, g1)"
      by (cases "series_apply p cells m g") auto
    have k: "mapping_of m1 q w = Some h" using sa_keeps[OF s Cons.prems(2)] .
    from Cons.prems(1) have "pseudonymize_columns cps (AList.update c out df) m1 g1 = (res, df', m', g')"
      by (simp add: cp Some s)
    from Cons.IH[OF this k] show ?thesis .
  qed
qed

lemma pc_rows:
  assumes "distinct (map fst cps)" and "fst ` set cps \<subseteq> fst ` set df"
    and "pseudonymize_columns cps df m g = (res, df', m', g')"
    and "(c, p) \<in> set cps" and "map_of df c = Some xs"
  shows "\<exists>ys. map_of df' c = Some ys \<and> length ys = length xs \<and>
     (\<forall>j<length xs. if isna (xs ! j) then ys ! j = xs ! j
        else (\<exists>f. mapping_of m' p (str (xs ! j)) = Some f \<and> ys ! j = Text f))"
  using assms
proof (induction cps arbitrary: df m g)
  case Nil
  then show ?case by simp
next
  case (Cons cp cps)
  obtain c0 p0 where cp: "cp = (c0, p0)" by (cases cp) auto
  from Cons.prems(1) cp have d: "distinct (map fst cps)" and nin: "c0 \<notin> fst ` set cps" by auto
  from Cons.prems(2) cp have "c0 \<in> fst ` set df" by simp
  then obtain xs0 where xs0: "map_of df c0 = Some xs0"
    by (cases "map_of df c0") (simp_all add: map_of_eq_None_iff)
  obtain ys0 m1 g1 where s: "series_apply p0 xs0 m g = (ys0, m1, g1)"
    by (cases "series_apply p0 xs0 m g") auto
  let ?df1 = "AList.update c0 ys0 df"
  from Cons.prems(3) have rec: "pseudonymize_columns cps ?df1 m1 g1 = (res, df', m', g')"
    by (simp add: cp xs0 s)
  have v1: "fst ` set cps \<subseteq> fst ` set ?df1"
    using Cons.prems(2) by (auto simp: AList.dom_update)
  show ?case
  proof (cases "(c, p) = (c0, p0)")
    case True
    then have c: "c = c0" and p: "p = p0" by simp_all
    from Cons.prems(5) xs0 c have x: "xs = xs0" by simp
    have "map_of (fst (snd (pseudonymize_columns cps ?df1 m1 g1))) c0 = map_of ?df1 c0"
      by (rule pc_map_of_other[OF nin])
    then have m: "map_of df' c0 = Some ys0" by (simp add: rec AList.update_conv')
    have l: "length ys0 = length xs0" using sa_length[OF s] .
    have rows: "\<forall>j<length xs0. if isna (xs0 ! j) then ys0 ! j = xs0 ! j
        else (\<exists>f. mapping_of m' p0 (str (xs0 ! j)) = Some f \<and> ys0 ! j = Text f)"
    proof (intro allI impI)
      fix j assume j: "j < length xs0"
      show "if isna (xs0 ! j) then ys0 ! j = xs0 ! j
        else (\<exists>f. mapping_of m' p0 (str (xs0 ! j)) = Some f \<and> ys0 ! j = Text f)"
      proof (cases "isna (xs0 ! j)")
        case True
        with sa_cells[OF s j] show ?thesis by simp
      next
        case False
        with sa_cells[OF s j] obtain f where f: "mapping_of m1 p0 (str (xs0 ! j)) = Some f"
          "ys0 ! j = Text f" by auto
        have "mapping_of m' p0 (str (xs0 ! j)) = Some f" using pc_keeps[OF rec f(1)] .
        with f(2) False show ?thesis by simp
      qed
    qed
    from m l rows show ?thesis unfolding c p x by (intro exI[of _ ys0] conjI)
  next
    case False
    with Cons.prems(4) cp have mem: "(c, p) \<in> set cps" by auto
    then have "c \<in> fst ` set cps" by (rule image_eqI[rotated]) simp
    with nin have ne: "c \<noteq> c0" by auto
    have x: "map_of ?df1 c = Some xs" using Cons.prems(5) ne by (simp add: AList.update_conv')
    show ?thesis by (rule Cons.IH[OF d v1 rec mem x])
  qed
qed

lemma pc_keys:
  assumes "distinct (map fst cps)"
    and "pseudonymize_columns cps df m g = (res, df', m', g')"
    and "mapping_of m' q k = Some f"
  shows "mapping_of m q k = Some f \<or>
     (\<exists>c xs v. (c, q) \<in> set cps \<and> map_of df c = Some xs \<and> v \<in> set xs \<and> \<not> isna v \<and> k = str v)"
  using assms
proof (induction cps arbitrary: df m g)
  case Nil
  then show ?case by simp
next
  case (Cons cp cps)
  obtain c0 p0 where cp: "cp = (c0, p0)" by (cases cp) auto
  from Cons.prems(1) cp have d: "distinct (map fst cps)" and nin: "c0 \<notin> fst ` set cps" by auto
  show ?case
  proof (cases "map_of df c0")
    case None
    with Cons.prems(2,3) show ?thesis by (simp add: cp)
  next
    case (Some xs0)
    obtain ys0 m1 g1 where s: "series_apply p0 xs0 m g = (ys0, m1, g1)"
      by (cases "series_apply p0 xs0 m g") auto
    let ?df1 = "AList.update c0 ys0 df"
    from Cons.prems(2) have rec: "pseudonymize_columns cps ?df1 m1 g1 = (res, df', m', g')"
      by (simp add: cp Some s)
    from Cons.IH[OF d rec Cons.prems(3)] show ?thesis
    proof
      assume "mapping_of m1 q k = Some f"
      from sa_keys[OF s this] show ?thesis
      proof
        assume "mapping_of m q k = Some f"
        then show ?thesis by simp
      next
        assume "q = p0 \<and> (\<exists>v\<in>set xs0. \<not> isna v \<and> k = str v)"
        then obtain v where "q = p0" "v \<in> set xs0" "\<not> isna v" "k = str v" by auto
        with Some have "(c0, q) \<in> set (cp # cps) \<and> map_of df c0 = Some xs0 \<and> v \<in> set xs0 \<and>
           \<not> isna v \<and> k = str v" by (simp add: cp)
        then show ?thesis by (intro disjI2 exI)
      qed
    next
      assume "\<exists>c xs v. (c, q) \<in> set cps \<and> map_of ?df1 c = Some xs \<and> v \<in> set xs \<and> \<not> isna v \<and> k = str v"
      then obtain c xs v where a: "(c, q) \<in> set cps" "map_of ?df1 c = Some xs" "v \<in> set xs"
        "\<not> isna v" "k = str v" by auto
      from a(1) have "c \<in> fst ` set cps" by (rule image_eqI[rotated]) simp
      with nin have "c \<noteq> c0" by auto
      with a(2) have "map_of df c = Some xs" by (simp add: AList.update_conv')
      with a have "(c, q) \<in> set (cp # cps) \<and> map_of df c = Some xs \<and> v \<in> set xs \<and>
           \<not> isna v \<and> k = str v" by simp
      then show ?thesis by (intro disjI2 exI)
    qed
  qed
qed

lemma pc_lengths:
  "list_all2 (\<lambda>e e'. length (snd e') = length (snd e)) df
     (fst (snd (pseudonymize_columns cps df m g)))"
proof (rule pc_rel)
  fix c p xs m g
  obtain out m1 g1 where s: "series_apply p xs m g = (out, m1, g1)"
    by (cases "series_apply p xs m g") auto
  from sa_length[OF s] show "length (snd (c, fst (series_apply p xs m g))) = length (snd (c, xs))"
    by (simp add: s)
qed simp_all

lemma pc_frame:
  "list_all2 (\<lambda>e e'. fst e' = fst e \<and> (fst e \<notin> fst ` set cps \<longrightarrow> e' = e)) df
     (fst (snd (pseudonymize_columns cps df m g)))"
proof (rule pc_rel)
  fix c p xs m g
  assume "(c, p) \<in> set cps"
  then have "c \<in> fst ` set cps" by (rule image_eqI[rotated]) simp
  then show "fst (c, fst (series_apply p xs m g)) = fst (c, xs) \<and>
       (fst (c, xs) \<notin> fst ` set cps \<longrightarrow> (c, fst (series_apply p xs m g)) = (c, xs))"
    by simp
qed auto

lemma pc_missing:
  "list_all2 (\<lambda>e e'. length (snd e') = length (snd e) \<and>
        (\<forall>j<length (snd e). isna (snd e ! j) \<longrightarrow> snd e' ! j = snd e ! j)) df
     (fst (snd (pseudonymize_columns cps df m g)))"
proof (rule pc_rel)
  fix c p xs m g
  obtain out m1 g1 where s: "series_apply p xs m g = (out, m1, g1)"
    by (cases "series_apply p xs m g") auto
  have "\<forall>j<length xs. isna (xs ! j) \<longrightarrow> out ! j = xs ! j"
  proof (intro allI impI)
    fix j assume "j < length xs" "isna (xs ! j)"
    with sa_cells[OF s] show "out ! j = xs ! j" by simp
  qed
  with sa_length[OF s]
  show "length (snd (c, fst (series_apply p xs m g))) = length (snd (c, xs)) \<and>
       (\<forall>j<length (snd (c, xs)). isna (snd (c, xs) ! j) \<longrightarrow>
          snd (c, fst (series_apply p xs m g)) ! j = snd (c, xs) ! j)"
    by (simp add: s)
qed auto

lemma pc_error:
  "pseudonymize_columns cps df m g = (Inl e, df', m', g') \<Longrightarrow>
     \<exists>col. e = KeyError col \<and> col \<in> fst ` set cps \<and> col \<notin> fst ` set df"
proof (induction cps arbitrary: df m g)
  case Nil
  then show ?case by simp
next
  case (Cons cp cps)
  obtain c0 p0 where cp: "cp = (c0, p0)" by (cases cp) auto
  show ?case
  proof (cases "map_of df c0")
    case None
    then have "c0 \<notin> fst ` set df" by (simp add: map_of_eq_None_iff)
    moreover from Cons.prems None have "e = KeyError c0" by (simp add: cp)
    ultimately show ?thesis by (intro exI[of _ c0]) (simp add: cp)
  next
    case (Some xs0)
    obtain ys0 m1 g1 where s: "series_apply p0 xs0 m g = (ys0, m1, g1)"
      by (cases "series_apply p0 xs0 m g") auto
    from Cons.prems have "pseudonymize_columns cps (AList.update c0 ys0 df) m1 g1 = (Inl e, df', m', g')"
      by (simp add: cp Some s)
    from Cons.IH[OF this] obtain col where col: "e = KeyError col" "col \<in> fst ` set cps"
      "col \<notin> fst ` set (AList.update c0 ys0 df)" by auto
    from col(3) have "col \<notin> fst ` set df" by (simp add: AList.dom_update)
    with col(1,2) show ?thesis by (intro exI[of _ col]) simp
  qed
qed

lemma pc_absent:
  assumes pre: "fst ` set pre \<subseteq> fst ` set df" and col: "col \<notin> fst ` set df"
  shows "pseudonymize_columns (pre @ (col, prefix) # post) df m g =
           (Inl (KeyError col), snd (pseudonymize_columns pre df m g))"
    and "fst (pseudonymize_columns pre df m g) = Inr ()"
proof -
  show ok: "fst (pseudonymize_columns pre df m g) = Inr ()" using pre by (rule pc_ok)
  obtain res df1 m1 g1 where r: "pseudonymize_columns pre df m g = (res, df1, m1, g1)"
    by (cases "pseudonymize_columns pre df m g") auto
  with ok have res: "res = Inr ()" by simp
  have "map fst df1 = map fst df" using pc_names[of pre df m g] by (simp add: r)
  then have "set (map fst df1) = set (map fst df)" by simp
  then have "fst ` set df1 = fst ` set df" by simp
  with col have "map_of df1 col = None" by (simp add: map_of_eq_None_iff)
  then show "pseudonymize_columns (pre @ (col, prefix) # post) df m g =
           (Inl (KeyError col), snd (pseudonymize_columns pre df m g))"
    by (simp add: pc_append r res)
qed

text \<open>
  Claim C6. The claim asks that an assignment naming an absent column raises before any
  cell of any column is changed. The loop looks a column up only when it reaches it: with
  the assignments \<^verbatim>\<open>Vendor\<close> then \<^verbatim>\<open>Missing\<close>, the cells of \<^verbatim>\<open>Vendor\<close> are already replaced
  when \<^verbatim>\<open>df['Missing']\<close> raises \<^verbatim>\<open>KeyError\<close>.
\<close>

theorem absent_column_counterexample:
  "fst (interactive_pseudonymize [(''Vendor'', [Text ''Acme''])]
          [(''Vendor'', ''Vendor''), (''Missing'', ''X'')] rng_zero) = Inl (KeyError ''Missing'') \<and>
   fst (snd (interactive_pseudonymize [(''Vendor'', [Text ''Acme''])]
          [(''Vendor'', ''Vendor''), (''Missing'', ''X'')] rng_zero))
     = [(''Vendor'', [Text ''Vendor_001''])] \<and>
   fst (snd (interactive_pseudonymize [(''Vendor'', [Text ''Acme''])]
          [(''Vendor'', ''Vendor''), (''Missing'', ''X'')] rng_zero))
     \<noteq> [(''Vendor'', [Text ''Acme''])]"
proof -
  obtain s1 where c: "get_fake_value ''Vendor'' ''Acme'' SessionMapper_init rng_zero
      = (''Vendor_001'', s1, rng_next rng_zero)"
    using gfv_first[of rng_zero SessionMapper_init "''Vendor''" "''Acme''"]
    by (simp add: rng_zero_0 fake_name_1)
  have s: "replace_value ''Vendor'' (Text ''Acme'') SessionMapper_init rng_zero
      = (Text ''Vendor_001'', s1, rng_next rng_zero)"
    by (simp add: replace_value_def c)
  have "interactive_pseudonymize [(''Vendor'', [Text ''Acme''])]
          [(''Vendor'', ''Vendor''), (''Missing'', ''X'')] rng_zero
      = (Inl (KeyError ''Missing''), [(''Vendor'', [Text ''Vendor_001''])], s1, rng_next rng_zero)"
    by (simp add: interactive_pseudonymize_def s)
  then show ?thesis by simp
qed

text \<open>
  Claim C6, as the code has it. When some assigned column is not in the frame, the loop
  raises \<^verbatim>\<open>KeyError\<close> for the first such column in the order of the assignments. The frame,
  the mapper and the generator are then as the loop over the assignments before that
  column leaves them, a loop that raises nothing; when no assignment precedes the absent
  column the frame is unmodified.
\<close>

theorem absent_column_raises_after_earlier_columns:
  assumes "\<not> fst ` set column_prefixes \<subseteq> fst ` set df"
  shows "fst (interactive_pseudonymize df column_prefixes g)
           = Inl (KeyError (fst (hd (dropWhile (\<lambda>cp. fst cp \<in> fst ` set df) column_prefixes)))) \<and>
         fst (hd (dropWhile (\<lambda>cp. fst cp \<in> fst ` set df) column_prefixes)) \<notin> fst ` set df \<and>
         snd (interactive_pseudonymize df column_prefixes g)
           = snd (interactive_pseudonymize df
                    (takeWhile (\<lambda>cp. fst cp \<in> fst ` set df) column_prefixes) g) \<and>
         fst (interactive_pseudonymize df
                (takeWhile (\<lambda>cp. fst cp \<in> fst ` set df) column_prefixes) g) = Inr () \<and>
         (takeWhile (\<lambda>cp. fst cp \<in> fst ` set df) column_prefixes = [] \<longrightarrow>
            snd (interactive_pseudonymize df column_prefixes g) = (df, SessionMapper_init, g))"
proof -
  let ?P = "\<lambda>cp. fst cp \<in> fst ` set df"
  let ?pre = "takeWhile ?P column_prefixes"
  let ?rest = "dropWhile ?P column_prefixes"
  from assms obtain x where "x \<in> set column_prefixes" "\<not> ?P x" by auto
  then have ne: "?rest \<noteq> []" by (auto simp: dropWhile_eq_Nil_conv)
  then obtain cp post where rest: "?rest = cp # post" by (cases ?rest) auto
  have hd: "hd ?rest = cp" by (simp add: rest)
  have "\<not> ?P (hd ?rest)" using ne by (rule hd_dropWhile)
  then have col: "fst cp \<notin> fst ` set df" by (simp add: hd)
  have pre: "fst ` set ?pre \<subseteq> fst ` set df"
  proof
    fix c assume "c \<in> fst ` set ?pre"
    then obtain y where y: "y \<in> set ?pre" "c = fst y" by auto
    from set_takeWhileD[OF y(1)] y(2) show "c \<in> fst ` set df" by simp
  qed
  have split: "column_prefixes = ?pre @ (fst cp, snd cp) # post"
    using takeWhile_dropWhile_id[of ?P column_prefixes] rest by simp
  note A = pc_absent(1)[OF pre col, of "snd cp" post SessionMapper_init g]
    pc_absent(2)[OF pre col, of SessionMapper_init g]
  have e: "pseudonymize_columns column_prefixes df SessionMapper_init g =
           (Inl (KeyError (fst cp)), snd (pseudonymize_columns ?pre df SessionMapper_init g))"
    using A(1) split by simp
  show ?thesis
  proof (intro conjI)
    show "fst (interactive_pseudonymize df column_prefixes g) = Inl (KeyError (fst (hd ?rest)))"
      by (simp add: interactive_pseudonymize_def e hd)
    show "fst (hd ?rest) \<notin> fst ` set df" using col by (simp add: hd)
    show "snd (interactive_pseudonymize df column_prefixes g)
           = snd (interactive_pseudonymize df ?pre g)"
      by (simp add: interactive_pseudonymize_def e)
    show "fst (interactive_pseudonymize df ?pre g) = Inr ()"
      using A(2) by (simp add: interactive_pseudonymize_def)
    show "?pre = [] \<longrightarrow> snd (interactive_pseudonymize df column_prefixes g) = (df, SessionMapper_init, g)"
    proof
      assume "?pre = []"
      then show "snd (interactive_pseudonymize df column_prefixes g) = (df, SessionMapper_init, g)"
        by (simp add: interactive_pseudonymize_def e)
    qed
  qed
qed

theorem absent_column_raises_after_earlier_columns_witness:
  "\<not> fst ` set [(''Vendor'', ''Vendor''), (''Missing'', ''X'')] \<subseteq> fst ` set [(''Vendor'', [Text ''Acme''])] \<and>
   fst (interactive_pseudonymize [(''Vendor'', [Text ''Acme''])]
          [(''Vendor'', ''Vendor''), (''Missing'', ''X'')] rng_zero) = Inl (KeyError ''Missing'') \<and>
   snd (interactive_pseudonymize [(''Vendor'', [Text ''Acme''])]
          [(''Vendor'', ''Vendor''), (''Missing'', ''X'')] rng_zero)
     = snd (interactive_pseudonymize [(''Vendor'', [Text ''Acme''])] [(''Vendor'', ''Vendor'')] rng_zero)"
proof -
  have h: "\<not> fst ` set [(''Vendor'', ''Vendor''), (''Missing'', ''X'')] \<subseteq> fst ` set [(''Vendor'', [Text ''Acme''])]"
    by simp
  note T = absent_column_raises_after_earlier_columns[OF h, of rng_zero]
  have a: "fst (interactive_pseudonymize [(''Vendor'', [Text ''Acme''])]
          [(''Vendor'', ''Vendor''), (''Missing'', ''X'')] rng_zero) = Inl (KeyError ''Missing'')"
    using T[THEN conjunct1] by simp
  have b: "snd (interactive_pseudonymize [(''Vendor'', [Text ''Acme''])]
          [(''Vendor'', ''Vendor''), (''Missing'', ''X'')] rng_zero)
     = snd (interactive_pseudonymize [(''Vendor'', [Text ''Acme''])] [(''Vendor'', ''Vendor'')] rng_zero)"
    using T[THEN conjunct2, THEN conjunct2, THEN conjunct1] by simp
  show ?thesis by (intro conjI h a b)
qed

text \<open>
  Claim C8. When every assigned column is in the frame (the keys of \<^verbatim>\<open>column_prefixes\<close>, a
  dict, are distinct), the loop raises nothing and returns the same column names in the
  same order, every column with its number of rows; a column that is not assigned is
  returned as it was, name and cells; in an assigned column the cell of row \<open>j\<close> is the
  cell of row \<open>j\<close> of the input when that is missing, and otherwise the pseudonym the one
  mapper of the call holds at the end for the string of that input cell.
\<close>

theorem shape_preserved:
  assumes valid: "fst ` set column_prefixes \<subseteq> fst ` set df"
    and keys: "distinct (map fst column_prefixes)"
    and r: "interactive_pseudonymize df column_prefixes g = (res, df', mapper, g')"
  shows "res = Inr () \<and> map fst df' = map fst df \<and> length df' = length df \<and>
    (\<forall>i<length df. length (snd (df' ! i)) = length (snd (df ! i))) \<and>
    (\<forall>i<length df. fst (df ! i) \<notin> fst ` set column_prefixes \<longrightarrow> df' ! i = df ! i) \<and>
    (\<forall>c p xs. (c, p) \<in> set column_prefixes \<longrightarrow> map_of df c = Some xs \<longrightarrow>
       (\<exists>ys. map_of df' c = Some ys \<and> length ys = length xs \<and>
          (\<forall>j<length xs. if isna (xs ! j) then ys ! j = xs ! j
             else (\<exists>f. mapping_of mapper p (str (xs ! j)) = Some f \<and> ys ! j = Text f))))"
proof -
  from r have r': "pseudonymize_columns column_prefixes df SessionMapper_init g = (res, df', mapper, g')"
    by (simp add: interactive_pseudonymize_def)
  have df': "df' = fst (snd (pseudonymize_columns column_prefixes df SessionMapper_init g))"
    by (simp add: r')
  have a: "res = Inr ()" using pc_ok[OF valid, of SessionMapper_init g] by (simp add: r')
  have b: "map fst df' = map fst df" unfolding df' by (rule pc_names)
  have L: "list_all2 (\<lambda>e e'. length (snd e') = length (snd e)) df df'"
    unfolding df' by (rule pc_lengths)
  have F: "list_all2 (\<lambda>e e'. fst e' = fst e \<and> (fst e \<notin> fst ` set column_prefixes \<longrightarrow> e' = e)) df df'"
    unfolding df' by (rule pc_frame)
  have c: "length df' = length df" using L by (simp add: list_all2_lengthD)
  have d: "\<forall>i<length df. length (snd (df' ! i)) = length (snd (df ! i))"
    using L by (simp add: list_all2_conv_all_nth)
  have e: "\<forall>i<length df. fst (df ! i) \<notin> fst ` set column_prefixes \<longrightarrow> df' ! i = df ! i"
    using F by (simp add: list_all2_conv_all_nth)
  have f: "\<forall>c p xs. (c, p) \<in> set column_prefixes \<longrightarrow> map_of df c = Some xs \<longrightarrow>
       (\<exists>ys. map_of df' c = Some ys \<and> length ys = length xs \<and>
          (\<forall>j<length xs. if isna (xs ! j) then ys ! j = xs ! j
             else (\<exists>f. mapping_of mapper p (str (xs ! j)) = Some f \<and> ys ! j = Text f)))"
  proof (intro allI impI)
    fix c p xs assume "(c, p) \<in> set column_prefixes" "map_of df c = Some xs"
    then show "\<exists>ys. map_of df' c = Some ys \<and> length ys = length xs \<and>
          (\<forall>j<length xs. if isna (xs ! j) then ys ! j = xs ! j
             else (\<exists>f. mapping_of mapper p (str (xs ! j)) = Some f \<and> ys ! j = Text f))"
      by (rule pc_rows[OF keys valid r'])
  qed
  show ?thesis by (intro conjI a b c d e f)
qed

theorem shape_preserved_witness:
  "fst ` set [(''Vendor'', ''Vendor'')] \<subseteq> fst ` set [(''Vendor'', [Text ''Acme'']), (''Amount'', [Number 5])] \<and>
   distinct (map fst [(''Vendor'', ''Vendor'')]) \<and>
   fst (interactive_pseudonymize [(''Vendor'', [Text ''Acme'']), (''Amount'', [Number 5])]
          [(''Vendor'', ''Vendor'')] rng_zero) = Inr () \<and>
   map fst (fst (snd (interactive_pseudonymize [(''Vendor'', [Text ''Acme'']), (''Amount'', [Number 5])]
          [(''Vendor'', ''Vendor'')] rng_zero))) = [''Vendor'', ''Amount''] \<and>
   fst (snd (interactive_pseudonymize [(''Vendor'', [Text ''Acme'']), (''Amount'', [Number 5])]
          [(''Vendor'', ''Vendor'')] rng_zero)) ! 1 = (''Amount'', [Number 5])"
proof -
  let ?df = "[(''Vendor'', [Text ''Acme'']), (''Amount'', [Number 5])]"
  let ?cps = "[(''Vendor'', ''Vendor'')]"
  let ?X = "interactive_pseudonymize ?df ?cps rng_zero"
  have v: "fst ` set ?cps \<subseteq> fst ` set ?df" by simp
  have k: "distinct (map fst ?cps)" by simp
  have r: "?X = (fst ?X, fst (snd ?X), fst (snd (snd ?X)), snd (snd (snd ?X)))" by simp
  note T = shape_preserved[OF v k r]
  have a: "fst ?X = Inr ()" by (rule T[THEN conjunct1])
  have b: "map fst (fst (snd ?X)) = [''Vendor'', ''Amount'']"
    using T[THEN conjunct2, THEN conjunct1] by simp
  have "1 < length ?df \<longrightarrow> fst (?df ! 1) \<notin> fst ` set ?cps \<longrightarrow> fst (snd ?X) ! 1 = ?df ! 1"
    using T[THEN conjunct2, THEN conjunct2, THEN conjunct2, THEN conjunct2, THEN conjunct1]
    by (rule spec)
  then have c: "fst (snd ?X) ! 1 = (''Amount'', [Number 5])" by simp
  show ?thesis by (intro conjI v k a b c)
qed

text \<open>
  Claim C9. Whatever the assignments, every missing cell of the frame is returned
  unchanged at its place; \<^verbatim>\<open>replace_value\<close> returns a missing value as it is and leaves
  the mapper and the generator alone; the only error the loop raises is the \<^verbatim>\<open>KeyError\<close>
  of an assigned column that is not in the frame; and every key of the mapping tables at
  the end is the string of a cell that is not missing, of a column assigned to that prefix.
\<close>

theorem missing_values_pass_through:
  assumes keys: "distinct (map fst column_prefixes)"
    and r: "interactive_pseudonymize df column_prefixes g = (res, df', mapper, g')"
  shows "length df' = length df \<and>
    (\<forall>i<length df. length (snd (df' ! i)) = length (snd (df ! i)) \<and>
       (\<forall>j<length (snd (df ! i)). isna (snd (df ! i) ! j) \<longrightarrow> snd (df' ! i) ! j = snd (df ! i) ! j)) \<and>
    (\<forall>e. res = Inl e \<longrightarrow>
       (\<exists>col. e = KeyError col \<and> col \<in> fst ` set column_prefixes \<and> col \<notin> fst ` set df)) \<and>
    (\<forall>q k f. mapping_of mapper q k = Some f \<longrightarrow>
       (\<exists>c xs v. (c, q) \<in> set column_prefixes \<and> map_of df c = Some xs \<and> v \<in> set xs \<and>
          \<not> isna v \<and> k = str v)) \<and>
    (\<forall>p v m h. isna v \<longrightarrow> replace_value p v m h = (v, m, h))"
proof -
  from r have r': "pseudonymize_columns column_prefixes df SessionMapper_init g = (res, df', mapper, g')"
    by (simp add: interactive_pseudonymize_def)
  have df': "df' = fst (snd (pseudonymize_columns column_prefixes df SessionMapper_init g))"
    by (simp add: r')
  have M: "list_all2 (\<lambda>e e'. length (snd e') = length (snd e) \<and>
        (\<forall>j<length (snd e). isna (snd e ! j) \<longrightarrow> snd e' ! j = snd e ! j)) df df'"
    unfolding df' by (rule pc_missing)
  have a: "length df' = length df" using M by (simp add: list_all2_lengthD)
  have b: "\<forall>i<length df. length (snd (df' ! i)) = length (snd (df ! i)) \<and>
       (\<forall>j<length (snd (df ! i)). isna (snd (df ! i) ! j) \<longrightarrow> snd (df' ! i) ! j = snd (df ! i) ! j)"
    using M by (simp add: list_all2_conv_all_nth)
  have c: "\<forall>e. res = Inl e \<longrightarrow>
       (\<exists>col. e = KeyError col \<and> col \<in> fst ` set column_prefixes \<and> col \<notin> fst ` set df)"
  proof (intro allI impI)
    fix e assume "res = Inl e"
    with r' have "pseudonymize_columns column_prefixes df SessionMapper_init g = (Inl e, df', mapper, g')"
      by simp
    then show "\<exists>col. e = KeyError col \<and> col \<in> fst ` set column_prefixes \<and> col \<notin> fst ` set df"
      by (rule pc_error)
  qed
  have d: "\<forall>q k f. mapping_of mapper q k = Some f \<longrightarrow>
       (\<exists>c xs v. (c, q) \<in> set column_prefixes \<and> map_of df c = Some xs \<and> v \<in> set xs \<and>
          \<not> isna v \<and> k = str v)"
  proof (intro allI impI)
    fix q k f assume "mapping_of mapper q k = Some f"
    from pc_keys[OF keys r' this]
    show "\<exists>c xs v. (c, q) \<in> set column_prefixes \<and> map_of df c = Some xs \<and> v \<in> set xs \<and>
          \<not> isna v \<and> k = str v" by simp
  qed
  have e: "\<forall>p v m h. isna v \<longrightarrow> replace_value p v m h = (v, m, h)"
    by (intro allI impI) (rule rv_na)
  show ?thesis by (intro conjI a b c d e)
qed

theorem missing_values_pass_through_witness:
  "distinct (map fst [(''Vendor'', ''Vendor'')]) \<and>
   isna (snd ([(''Vendor'', [NA, Text ''Acme''])] ! 0) ! 0) \<and>
   snd (fst (snd (interactive_pseudonymize [(''Vendor'', [NA, Text ''Acme''])]
          [(''Vendor'', ''Vendor'')] rng_zero)) ! 0) ! 0 = NA \<and>
   replace_value ''Vendor'' NA SessionMapper_init rng_zero = (NA, SessionMapper_init, rng_zero)"
proof -
  let ?df = "[(''Vendor'', [NA, Text ''Acme''])]"
  let ?cps = "[(''Vendor'', ''Vendor'')]"
  let ?X = "interactive_pseudonymize ?df ?cps rng_zero"
  have k: "distinct (map fst ?cps)" by simp
  have r: "?X = (fst ?X, fst (snd ?X), fst (snd (snd ?X)), snd (snd (snd ?X)))" by simp
  note T = missing_values_pass_through[OF k r]
  have n: "isna (snd (?df ! 0) ! 0)" by simp
  have "0 < length ?df \<longrightarrow> length (snd (fst (snd ?X) ! 0)) = length (snd (?df ! 0)) \<and>
       (\<forall>j<length (snd (?df ! 0)). isna (snd (?df ! 0) ! j) \<longrightarrow> snd (fst (snd ?X) ! 0) ! j = snd (?df ! 0) ! j)"
    using T[THEN conjunct2, THEN conjunct1] by (rule spec)
  then have "\<forall>j<length (snd (?df ! 0)). isna (snd (?df ! 0) ! j) \<longrightarrow> snd (fst (snd ?X) ! 0) ! j = snd (?df ! 0) ! j"
    by simp
  then have "0 < length (snd (?df ! 0)) \<longrightarrow> isna (snd (?df ! 0) ! 0) \<longrightarrow> snd (fst (snd ?X) ! 0) ! 0 = snd (?df ! 0) ! 0"
    by (rule spec)
  then have a: "snd (fst (snd ?X) ! 0) ! 0 = NA" by simp
  have "isna NA \<longrightarrow> replace_value ''Vendor'' NA SessionMapper_init rng_zero = (NA, SessionMapper_init, rng_zero)"
    using T[THEN conjunct2, THEN conjunct2, THEN conjunct2, THEN conjunct2] by blast
  then have b: "replace_value ''Vendor'' NA SessionMapper_init rng_zero = (NA, SessionMapper_init, rng_zero)"
    by simp
  show ?thesis by (intro conjI k n a b)
qed

end
